theory Spec2Isabelle
  imports Main "HOL-Library.AList"
begin

section \<open>Subtable partitioner\<close>

text \<open>
  \<^verbatim>\<open>grouper\<close> is a generator: each round of its \<^verbatim>\<open>while True\<close> loop pulls up to \<open>n\<close>
  items from the iterator. When the iterator runs dry inside the round (fewer than \<open>n\<close>
  items were left) the partial chunk is yielded if it is non-empty and the loop ends;
  otherwise the full chunk is yielded and the loop goes on. With \<open>n = 0\<close> the inner
  \<^verbatim>\<open>for\<close> never touches the iterator, so the generator yields empty lists forever:
  the loop is modelled as a partial function whose value \<open>None\<close> stands for not returning.
\<close>

definition SUBTABLE_MAX_COUNT :: nat where
  "SUBTABLE_MAX_COUNT = 4000"

partial_function (option) grouper :: "'a list \<Rightarrow> nat \<Rightarrow> 'a list list option" where
  "grouper xs n =
     (if length xs < n then Some (if xs = [] then [] else [xs])
      else Option.bind (grouper (drop n xs) n) (\<lambda>rest. Some (take n xs # rest)))"

declare grouper.simps [code]

text \<open>
  \<^verbatim>\<open>itertools.groupby\<close>: consecutive items whose key equals the key of the first item of
  the run form one group.
\<close>

function groupby :: "('a \<Rightarrow> 'k) \<Rightarrow> 'a list \<Rightarrow> ('k \<times> 'a list) list" where
  "groupby key [] = []"
| "groupby key (x # xs) =
     (key x, x # takeWhile (\<lambda>y. key y = key x) xs)
       # groupby key (dropWhile (\<lambda>y. key y = key x) xs)"
  by pat_completeness auto
termination
  by (relation "measure (\<lambda>(key, xs). length xs)") (auto simp: length_dropWhile_le less_Suc_eq_le)

fun grouper2_loop :: "('k \<times> 'a list) list \<Rightarrow> nat \<Rightarrow> 'a list list option" where
  "grouper2_loop [] n = Some []"
| "grouper2_loop ((k, vx) # groups) n =
     (case grouper vx n of
        None \<Rightarrow> None
      | Some vs \<Rightarrow>
          (case grouper2_loop groups n of
             None \<Rightarrow> None
           | Some rest \<Rightarrow> Some (vs @ rest)))"

text \<open>The default \<^verbatim>\<open>key=None\<close> of the source is the identity function here.\<close>

definition grouper2 :: "'a list \<Rightarrow> nat \<Rightarrow> ('a \<Rightarrow> 'k) \<Rightarrow> 'a list list option" where
  "grouper2 iterable n key = grouper2_loop (groupby key iterable) n"

section \<open>The font document\<close>

text \<open>
  The font is the JSON object that \<^verbatim>\<open>otfccdump\<close> prints. A JSON object (a Python dict,
  which keeps insertion order) is an association list with distinct keys:
  \<open>map_of d k\<close> is \<^verbatim>\<open>d.get(k)\<close>, \<open>AList.delete k d\<close> is \<^verbatim>\<open>del d[k]\<close> and \<^verbatim>\<open>d.pop(k, None)\<close>,
  and \<open>AList.update k v d\<close> is \<^verbatim>\<open>d[k] = v\<close> (in place for a key that is there, at the
  end for a new one). The \<^verbatim>\<open>flags\<close> entry of a lookup and the \<^verbatim>\<open>name\<close> and \<^verbatim>\<open>head\<close>
  tables are read by none of the functions below and are left out. Messages printed
  for an unknown lookup type or subtable shape are not modelled: the function goes on
  with the next lookup, as the source does. A function that can raise returns a sum:
  \<open>Inl\<close> the exception, \<open>Inr\<close> the font (or value) after the call; \<open>NonTermination\<close>
  is a call that does not return, which is what \<^verbatim>\<open>grouper\<close> with limit 0 leads to.
\<close>

datatype error = KeyError | ValueError | IndexError | NotImplementedError | AssertionError
  | NonTermination

type_synonym glyph = string
type_synonym codepoint = string
type_synonym jvalue = "(string \<times> int) list"

record ligature =
  lig_from :: "glyph list"
  lig_to :: glyph

datatype gsub_lookup =
    Gsub_single "(glyph \<times> glyph) list list"
  | Gsub_alternate "(glyph \<times> glyph list) list list"
  | Gsub_ligature "ligature list list"
  | Gsub_multiple "(glyph \<times> glyph list) list list"
  | Gsub_other string

text \<open>
  A rule of a contextual lookup is a dict read with \<^verbatim>\<open>rule.get(field, [])\<close>; a subtable of
  a contextual lookup is a dict whose shape is told by the keys it has.
\<close>

record pos_rule =
  rule_input :: "glyph list option"
  rule_backtrack :: "glyph list option"
  rule_lookahead :: "glyph list option"
  rule_lookups :: "string list option"

record ctx_subtable =
  st_rules :: "pos_rule list option"
  st_coverage :: "glyph list option"
  st_pos :: "jvalue list option"
  st_classes :: "glyph list list option"

datatype gpos_lookup =
    Gpos_single "(glyph \<times> jvalue) list list"
  | Gpos_pair "((glyph \<times> jvalue) list \<times> (glyph \<times> jvalue) list) list"
  | Gpos_mark_to_base "((glyph \<times> jvalue) list \<times> (glyph \<times> jvalue) list) list"
  | Gpos_mark_to_mark "((glyph \<times> jvalue) list \<times> (glyph \<times> jvalue) list) list"
  | Gpos_mark_to_ligature
      "((glyph \<times> jvalue) list \<times> (string \<times> (string \<times> (glyph \<times> jvalue) list) list) list) list"
  | Gpos_cursive "(glyph \<times> jvalue) list list"
  | Gpos_context "ctx_subtable list"
  | Gpos_chaining "ctx_subtable list"
  | Gpos_other string

record gsub_table =
  lookups :: "(string \<times> gsub_lookup) list"
  features :: "(string \<times> string list) list"
  languages :: "(string \<times> string list) list"
  lookupOrder :: "string list"

text \<open>
  \<open>languages\<close> maps a language system to its \<^verbatim>\<open>features\<close> list. \<open>GPOS\<close> is the
  \<^verbatim>\<open>lookups\<close> dict of the GPOS table, \<open>BASE\<close> the \<^verbatim>\<open>BaseScriptList\<close> under
  \<^verbatim>\<open>HorizAxis/BaseTagList\<close>: script, then language system, then the \<^verbatim>\<open>BaseCoord\<close> dicts
  of its \<^verbatim>\<open>BaseValues\<close>. \<open>None\<close> is a table that is absent.
\<close>

record font =
  cmap :: "(codepoint \<times> glyph) list"
  cmap_rev :: "(glyph \<times> codepoint list) list"
  glyph_order :: "glyph list"
  glyf :: "(glyph \<times> jvalue) list"
  GSUB :: "gsub_table option"
  GPOS :: "(string \<times> gpos_lookup) list option"
  BASE :: "(string \<times> (string \<times> (glyph \<times> jvalue) list list) list) list option"

definition MAX_GLYPH_COUNT :: nat where
  "MAX_GLYPH_COUNT = 65535"

text \<open>\<^verbatim>\<open>cmap_rev\<close> is a \<^verbatim>\<open>defaultdict(list)\<close>: reading a missing key gives the empty list.\<close>

definition defaultdict_get :: "('k \<times> 'v list) list \<Rightarrow> 'k \<Rightarrow> 'v list" where
  "defaultdict_get d k = (case map_of d k of None \<Rightarrow> [] | Some v \<Rightarrow> v)"

fun map_result :: "('a \<Rightarrow> error + 'b) \<Rightarrow> 'a list \<Rightarrow> error + 'b list" where
  "map_result f [] = Inr []"
| "map_result f (x # xs) =
     (case f x of
        Inl e \<Rightarrow> Inl e
      | Inr y \<Rightarrow> (case map_result f xs of Inl e \<Rightarrow> Inl e | Inr ys \<Rightarrow> Inr (y # ys)))"

section \<open>Reverse index maintainer\<close>

fun build_cmap_rev_loop ::
  "(codepoint \<times> glyph) list \<Rightarrow> (glyph \<times> codepoint list) list \<Rightarrow> (glyph \<times> codepoint list) list"
where
  "build_cmap_rev_loop [] acc = acc"
| "build_cmap_rev_loop ((codepoint, glyph_name) # items) acc =
     build_cmap_rev_loop items
       (AList.update glyph_name (defaultdict_get acc glyph_name @ [codepoint]) acc)"

definition build_cmap_rev :: "font \<Rightarrow> (glyph \<times> codepoint list) list" where
  "build_cmap_rev obj = build_cmap_rev_loop (cmap obj) []"

definition load_font :: "font \<Rightarrow> font" where
  "load_font decoded = decoded\<lparr>cmap_rev := build_cmap_rev decoded\<rparr>"

definition get_glyph_count :: "font \<Rightarrow> nat" where
  "get_glyph_count obj = length (glyph_order obj)"

text \<open>Python's \<^verbatim>\<open>str\<close> of an integer: its decimal digits, after a minus sign when negative.\<close>

definition digit_char :: "nat \<Rightarrow> char" where
  "digit_char d = ''0123456789ABCDEF'' ! d"

function str_nat :: "nat \<Rightarrow> string" where
  "str_nat n = (if n < 10 then [digit_char n] else str_nat (n div 10) @ [digit_char (n mod 10)])"
  by pat_completeness auto
termination
  by (relation "measure id") auto

declare str_nat.simps [simp del]

definition py_str :: "int \<Rightarrow> string" where
  "py_str i = (if i < 0 then CHR ''-'' # str_nat (nat (- i)) else str_nat (nat i))"

definition codepoint_to_glyph_name :: "font \<Rightarrow> int \<Rightarrow> error + glyph" where
  "codepoint_to_glyph_name obj codepoint =
     (case map_of (cmap obj) (py_str codepoint) of None \<Rightarrow> Inl KeyError | Some g \<Rightarrow> Inr g)"

definition disassociate_codepoint_and_glyph_name ::
  "font \<Rightarrow> codepoint \<Rightarrow> glyph \<Rightarrow> error + (bool \<times> font)"
where
  "disassociate_codepoint_and_glyph_name obj codepoint glyph_name =
     (case map_of (cmap obj) codepoint of
        None \<Rightarrow> Inl KeyError
      | Some _ \<Rightarrow>
          (let obj1 = obj\<lparr>cmap := AList.delete codepoint (cmap obj)\<rparr>;
               entry = defaultdict_get (cmap_rev obj1) glyph_name;
               is_only_item = (entry = [codepoint])
           in if is_only_item
              then Inr (is_only_item,
                        obj1\<lparr>cmap_rev := AList.delete glyph_name (cmap_rev obj1)\<rparr>)
              else if codepoint \<in> set entry
              then Inr (is_only_item,
                        obj1\<lparr>cmap_rev :=
                                AList.update glyph_name (remove1 codepoint entry) (cmap_rev obj1)\<rparr>)
              else Inl ValueError))"

section \<open>Codepoint and glyph pruner\<close>

text \<open>
  \<^verbatim>\<open>remove_glyph\<close> edits every lookup in place, one branch for each lookup type. A GSUB
  lookup of any type other than \<^verbatim>\<open>gsub_single\<close>, \<^verbatim>\<open>gsub_alternate\<close> and \<^verbatim>\<open>gsub_ligature\<close>
  reaches the final \<^verbatim>\<open>else\<close>, which prints a message and changes nothing.
  \<^verbatim>\<open>list.remove\<close> deletes the first occurrence only, which is \<open>remove1\<close>.
\<close>

fun remove_glyph_gsub :: "glyph \<Rightarrow> gsub_lookup \<Rightarrow> gsub_lookup" where
  "remove_glyph_gsub glyph_name (Gsub_single subtables) =
     Gsub_single
       (map (\<lambda>subtable. filter (\<lambda>(key, v). v \<noteq> glyph_name) (AList.delete glyph_name subtable))
          subtables)"
| "remove_glyph_gsub glyph_name (Gsub_alternate subtables) =
     Gsub_alternate
       (map (\<lambda>subtable.
               AList.delete glyph_name
                 (map (\<lambda>(key, alternates). (key, remove1 glyph_name alternates))
                    (AList.delete glyph_name subtable)))
          subtables)"
| "remove_glyph_gsub glyph_name (Gsub_ligature subtables) =
     Gsub_ligature
       (map (filter (\<lambda>s. glyph_name \<notin> set (lig_from s) \<and> glyph_name \<noteq> lig_to s)) subtables)"
| "remove_glyph_gsub glyph_name (Gsub_multiple subtables) = Gsub_multiple subtables"
| "remove_glyph_gsub glyph_name (Gsub_other ty) = Gsub_other ty"

definition get_or_empty :: "'a list option \<Rightarrow> 'a list" where
  "get_or_empty field = (case field of None \<Rightarrow> [] | Some xs \<Rightarrow> xs)"

definition list_index :: "'a list \<Rightarrow> 'a \<Rightarrow> nat" where
  "list_index xs x = length (takeWhile (\<lambda>y. y \<noteq> x) xs)"

definition list_pop :: "nat \<Rightarrow> 'a list \<Rightarrow> 'a list" where
  "list_pop i xs = take i xs @ drop (Suc i) xs"

text \<open>
  The three shapes of a \<^verbatim>\<open>gpos_context\<close> subtable, tried in the source's order. In the
  coverage shape \<^verbatim>\<open>pos.pop(index)\<close> raises IndexError when \<^verbatim>\<open>pos\<close> is too short.
\<close>

definition remove_glyph_context :: "glyph \<Rightarrow> ctx_subtable \<Rightarrow> error + ctx_subtable" where
  "remove_glyph_context glyph_name subtable =
     (case st_rules subtable of
        Some rules \<Rightarrow>
          Inr (subtable\<lparr>st_rules := Some
                 (filter (\<lambda>rule. glyph_name \<notin> set (get_or_empty (rule_input rule)) \<and>
                                  glyph_name \<notin> set (get_or_empty (rule_lookups rule))) rules)\<rparr>)
      | None \<Rightarrow>
          (case (st_coverage subtable, st_pos subtable) of
             (Some coverage, Some pos) \<Rightarrow>
               if glyph_name \<in> set coverage
               then (let index = list_index coverage glyph_name
                     in if index < length pos
                        then Inr (subtable\<lparr>st_coverage := Some (list_pop index coverage),
                                            st_pos := Some (list_pop index pos)\<rparr>)
                        else Inl IndexError)
               else Inr subtable
           | _ \<Rightarrow>
               (case st_classes subtable of
                  Some classes \<Rightarrow> Inr (subtable\<lparr>st_classes := Some (map (remove1 glyph_name) classes)\<rparr>)
                | None \<Rightarrow> Inr subtable)))"

definition remove_glyph_chaining :: "glyph \<Rightarrow> ctx_subtable \<Rightarrow> ctx_subtable" where
  "remove_glyph_chaining glyph_name subtable =
     (case st_rules subtable of
        Some rules \<Rightarrow>
          subtable\<lparr>st_rules := Some
            (filter (\<lambda>rule. glyph_name \<notin> set (get_or_empty (rule_input rule)) \<and>
                             glyph_name \<notin> set (get_or_empty (rule_backtrack rule)) \<and>
                             glyph_name \<notin> set (get_or_empty (rule_lookahead rule)) \<and>
                             glyph_name \<notin> set (get_or_empty (rule_lookups rule))) rules)\<rparr>
      | None \<Rightarrow> subtable)"

fun remove_glyph_gpos :: "glyph \<Rightarrow> gpos_lookup \<Rightarrow> error + gpos_lookup" where
  "remove_glyph_gpos glyph_name (Gpos_single subtables) =
     Inr (Gpos_single (map (AList.delete glyph_name) subtables))"
| "remove_glyph_gpos glyph_name (Gpos_pair subtables) =
     Inr (Gpos_pair (map (\<lambda>(first, second).
            (AList.delete glyph_name first, AList.delete glyph_name second)) subtables))"
| "remove_glyph_gpos glyph_name (Gpos_mark_to_base subtables) =
     Inr (Gpos_mark_to_base (map (\<lambda>(marks, bases).
            (AList.delete glyph_name marks, AList.delete glyph_name bases)) subtables))"
| "remove_glyph_gpos glyph_name (Gpos_mark_to_mark subtables) =
     Inr (Gpos_mark_to_mark (map (\<lambda>(marks, mark2s).
            (AList.delete glyph_name marks, AList.delete glyph_name mark2s)) subtables))"
| "remove_glyph_gpos glyph_name (Gpos_mark_to_ligature subtables) =
     Inr (Gpos_mark_to_ligature (map (\<lambda>(marks, bases).
            (AList.delete glyph_name marks,
             map (\<lambda>(base, anchors).
                    (base, map (\<lambda>(component, anchor). (component, AList.delete glyph_name anchor))
                             anchors))
               bases)) subtables))"
| "remove_glyph_gpos glyph_name (Gpos_cursive subtables) =
     Inr (Gpos_cursive (map (AList.delete glyph_name) subtables))"
| "remove_glyph_gpos glyph_name (Gpos_context subtables) =
     (case map_result (remove_glyph_context glyph_name) subtables of
        Inl e \<Rightarrow> Inl e
      | Inr subtables' \<Rightarrow> Inr (Gpos_context subtables'))"
| "remove_glyph_gpos glyph_name (Gpos_chaining subtables) =
     Inr (Gpos_chaining (map (remove_glyph_chaining glyph_name) subtables))"
| "remove_glyph_gpos glyph_name (Gpos_other ty) = Inr (Gpos_other ty)"

definition remove_glyph_gpos_table ::
  "glyph \<Rightarrow> (string \<times> gpos_lookup) list option \<Rightarrow> error + (string \<times> gpos_lookup) list option"
where
  "remove_glyph_gpos_table glyph_name table =
     (case table of
        None \<Rightarrow> Inr None
      | Some entries \<Rightarrow>
          (case map_result (\<lambda>(name, lookup).
                   case remove_glyph_gpos glyph_name lookup of
                     Inl e \<Rightarrow> Inl e
                   | Inr lookup' \<Rightarrow> Inr (name, lookup')) entries of
             Inl e \<Rightarrow> Inl e
           | Inr entries' \<Rightarrow> Inr (Some entries')))"

definition remove_glyph_base ::
  "glyph \<Rightarrow> (string \<times> (string \<times> (glyph \<times> jvalue) list list) list) list
     \<Rightarrow> (string \<times> (string \<times> (glyph \<times> jvalue) list list) list) list"
where
  "remove_glyph_base glyph_name base_script_list =
     map (\<lambda>(script, axis).
            (script, map (\<lambda>(lang, base_values). (lang, map (AList.delete glyph_name) base_values))
                       axis))
       base_script_list"

definition remove_glyph :: "font \<Rightarrow> glyph \<Rightarrow> error + font" where
  "remove_glyph obj glyph_name =
     (let obj1 = obj\<lparr>glyph_order := remove1 glyph_name (glyph_order obj)\<rparr>;
          obj2 = obj1\<lparr>glyf := AList.delete glyph_name (glyf obj1)\<rparr>;
          obj3 = obj2\<lparr>GSUB := map_option
                   (\<lambda>table. table\<lparr>lookups :=
                      map (\<lambda>(name, lookup). (name, remove_glyph_gsub glyph_name lookup))
                        (lookups table)\<rparr>)
                   (GSUB obj2)\<rparr>
      in case remove_glyph_gpos_table glyph_name (GPOS obj3) of
           Inl e \<Rightarrow> Inl e
         | Inr gpos' \<Rightarrow>
             Inr (obj3\<lparr>GPOS := gpos',
                       BASE := map_option (remove_glyph_base glyph_name) (BASE obj3)\<rparr>))"

definition remove_codepoint :: "font \<Rightarrow> int \<Rightarrow> error + font" where
  "remove_codepoint obj codepoint_int =
     (let codepoint = py_str codepoint_int
      in case map_of (cmap obj) codepoint of
           None \<Rightarrow> Inr obj
         | Some glyph_name \<Rightarrow>
             if glyph_name = [] then Inr obj
             else (case disassociate_codepoint_and_glyph_name obj codepoint glyph_name of
                     Inl e \<Rightarrow> Inl e
                   | Inr (is_only_item, obj') \<Rightarrow>
                       if is_only_item then remove_glyph obj' glyph_name else Inr obj'))"

fun remove_codepoints :: "font \<Rightarrow> int list \<Rightarrow> error + font" where
  "remove_codepoints obj [] = Inr obj"
| "remove_codepoints obj (codepoint # codepoints) =
     (case remove_codepoint obj codepoint of
        Inl e \<Rightarrow> Inl e
      | Inr obj' \<Rightarrow> remove_codepoints obj' codepoints)"

fun delete_codepoints :: "(codepoint \<times> glyph) list \<Rightarrow> codepoint list \<Rightarrow> error + (codepoint \<times> glyph) list"
where
  "delete_codepoints table [] = Inr table"
| "delete_codepoints table (codepoint # codepoints) =
     (case map_of table codepoint of
        None \<Rightarrow> Inl KeyError
      | Some _ \<Rightarrow> delete_codepoints (AList.delete codepoint table) codepoints)"

text \<open>
  Reading \<^verbatim>\<open>obj['cmap_rev'][glyph_name]\<close> for a glyph with no entry makes the defaultdict
  insert an empty list, which the final \<^verbatim>\<open>del\<close> takes out again.
\<close>

definition remove_associated_codepoints_of_glyph :: "font \<Rightarrow> glyph \<Rightarrow> error + font" where
  "remove_associated_codepoints_of_glyph obj glyph_name =
     (case delete_codepoints (cmap obj) (defaultdict_get (cmap_rev obj) glyph_name) of
        Inl e \<Rightarrow> Inl e
      | Inr table \<Rightarrow>
          Inr (obj\<lparr>cmap := table, cmap_rev := AList.delete glyph_name (cmap_rev obj)\<rparr>))"

section \<open>Reachability analyzer\<close>

text \<open>
  The body of the loop over the lookups, for one glyph of the cmap: what one lookup adds
  to \<^verbatim>\<open>reachable_glyphs\<close>. Any lookup type other than the three raises.
\<close>

fun reach_lookup :: "glyph \<Rightarrow> gsub_lookup \<Rightarrow> glyph set \<Rightarrow> error + glyph set" where
  "reach_lookup glyph_name (Gsub_single subtables) reachable =
     Inr (reachable \<union> set (map snd (filter (\<lambda>(k, v). glyph_name = k) (concat subtables))))"
| "reach_lookup glyph_name (Gsub_alternate subtables) reachable =
     Inr (reachable \<union>
            set (concat (map snd (filter (\<lambda>(k, vs). glyph_name = k) (concat subtables)))))"
| "reach_lookup glyph_name (Gsub_ligature subtables) reachable =
     Inr (reachable \<union>
            set (map lig_to (filter (\<lambda>item. glyph_name \<in> set (lig_from item)) (concat subtables))))"
| "reach_lookup glyph_name (Gsub_multiple subtables) reachable = Inl NotImplementedError"
| "reach_lookup glyph_name (Gsub_other ty) reachable = Inl NotImplementedError"

fun reach_lookups :: "glyph \<Rightarrow> gsub_lookup list \<Rightarrow> glyph set \<Rightarrow> error + glyph set" where
  "reach_lookups glyph_name [] reachable = Inr reachable"
| "reach_lookups glyph_name (lookup # rest) reachable =
     (case reach_lookup glyph_name lookup reachable of
        Inl e \<Rightarrow> Inl e
      | Inr reachable' \<Rightarrow> reach_lookups glyph_name rest reachable')"

fun reach_glyphs :: "font \<Rightarrow> glyph list \<Rightarrow> glyph set \<Rightarrow> error + glyph set" where
  "reach_glyphs obj [] reachable = Inr reachable"
| "reach_glyphs obj (glyph_name # rest) reachable =
     (case GSUB obj of
        None \<Rightarrow> Inl KeyError
      | Some table \<Rightarrow>
          (case reach_lookups glyph_name (map snd (lookups table)) (insert glyph_name reachable) of
             Inl e \<Rightarrow> Inl e
           | Inr reachable' \<Rightarrow> reach_glyphs obj rest reachable'))"

definition get_reachable_glyphs :: "font \<Rightarrow> error + glyph set" where
  "get_reachable_glyphs obj = reach_glyphs obj (map snd (cmap obj)) {''.notdef'', ''.null''}"

text \<open>
  \<^verbatim>\<open>clean_unused_glyphs\<close> walks the Python set \<^verbatim>\<open>all_glyphs - reachable_glyphs\<close>, whose
  iteration order the language leaves open. The order walked is the argument \<open>todo\<close>;
  \<open>iterates todo S\<close> says that \<open>todo\<close> is one of the orders in which the set \<open>S\<close> can
  be walked.
\<close>

definition iterates :: "'a list \<Rightarrow> 'a set \<Rightarrow> bool" where
  "iterates todo S \<longleftrightarrow> distinct todo \<and> set todo = S"

fun clean_loop :: "font \<Rightarrow> glyph list \<Rightarrow> error + font" where
  "clean_loop obj [] = Inr obj"
| "clean_loop obj (glyph_name # rest) =
     (case remove_associated_codepoints_of_glyph obj glyph_name of
        Inl e \<Rightarrow> Inl e
      | Inr obj1 \<Rightarrow>
          (case remove_glyph obj1 glyph_name of
             Inl e \<Rightarrow> Inl e
           | Inr obj2 \<Rightarrow> clean_loop obj2 rest))"

definition clean_unused_glyphs :: "glyph list \<Rightarrow> font \<Rightarrow> error + font" where
  "clean_unused_glyphs todo obj =
     (case get_reachable_glyphs obj of
        Inl e \<Rightarrow> Inl e
      | Inr reachable_glyphs \<Rightarrow> clean_loop obj todo)"

section \<open>Lookup assembler\<close>

definition insert_empty_glyph :: "font \<Rightarrow> glyph \<Rightarrow> font" where
  "insert_empty_glyph obj name =
     obj\<lparr>glyf := AList.update name
                    [(''advanceWidth'', 0), (''advanceHeight'', 1000), (''verticalOrigin'', 880)]
                    (glyf obj),
         glyph_order := glyph_order obj @ [name]\<rparr>"

definition insert_empty_feature :: "font \<Rightarrow> string \<Rightarrow> error + font" where
  "insert_empty_feature obj feature_name =
     (case GSUB obj of
        None \<Rightarrow> Inl KeyError
      | Some table \<Rightarrow>
          Inr (obj\<lparr>GSUB := Some
                 (table\<lparr>languages := map (\<lambda>(lang, fs). (lang, fs @ [feature_name])) (languages table),
                        features := AList.update feature_name [] (features table)\<rparr>)\<rparr>))"

text \<open>
  The three \<^verbatim>\<open>create_..._table\<close> functions build the subtables first, then append the
  lookup's name to the feature (KeyError when the feature is not there), store the
  lookup and append its name to \<^verbatim>\<open>lookupOrder\<close>.
\<close>

definition register_lookup :: "font \<Rightarrow> string \<Rightarrow> string \<Rightarrow> gsub_lookup \<Rightarrow> error + font" where
  "register_lookup obj feature_name lookup_name lookup =
     (case GSUB obj of
        None \<Rightarrow> Inl KeyError
      | Some table \<Rightarrow>
          (case map_of (features table) feature_name of
             None \<Rightarrow> Inl KeyError
           | Some names \<Rightarrow>
               Inr (obj\<lparr>GSUB := Some
                      (table\<lparr>features := AList.update feature_name (names @ [lookup_name]) (features table),
                             lookups := AList.update lookup_name lookup (lookups table),
                             lookupOrder := lookupOrder table @ [lookup_name]\<rparr>)\<rparr>)))"

definition create_word2pseu_table ::
  "font \<Rightarrow> string \<Rightarrow> (glyph list \<times> glyph) list \<Rightarrow> error + font"
where
  "create_word2pseu_table obj feature_name conversions =
     (case grouper2 conversions SUBTABLE_MAX_COUNT (\<lambda>conversion_item. length (fst conversion_item)) of
        None \<Rightarrow> Inl NonTermination
      | Some groups \<Rightarrow>
          register_lookup obj feature_name ''word2pseu''
            (Gsub_ligature
               (map (map (\<lambda>(glyph_names_k, pseudo_glyph_name).
                            \<lparr>lig_from = glyph_names_k, lig_to = pseudo_glyph_name\<rparr>))
                  groups)))"

text \<open>A dict comprehension over pairs: a later pair with the same key overwrites the value.\<close>

definition dict_of_pairs :: "('k \<times> 'v) list \<Rightarrow> ('k \<times> 'v) list" where
  "dict_of_pairs pairs = foldl (\<lambda>d (k, v). AList.update k v d) [] pairs"

definition create_char2char_table :: "font \<Rightarrow> string \<Rightarrow> (glyph \<times> glyph) list \<Rightarrow> error + font" where
  "create_char2char_table obj feature_name conversions =
     (case grouper conversions SUBTABLE_MAX_COUNT of
        None \<Rightarrow> Inl NonTermination
      | Some groups \<Rightarrow>
          register_lookup obj feature_name ''char2char'' (Gsub_single (map dict_of_pairs groups)))"

definition create_pseu2word_table ::
  "font \<Rightarrow> string \<Rightarrow> (glyph \<times> glyph list) list \<Rightarrow> error + font"
where
  "create_pseu2word_table obj feature_name conversions =
     (case grouper2 conversions SUBTABLE_MAX_COUNT (\<lambda>conversion_item. length (snd conversion_item)) of
        None \<Rightarrow> Inl NonTermination
      | Some groups \<Rightarrow>
          register_lookup obj feature_name ''pseu2word'' (Gsub_multiple (map dict_of_pairs groups)))"

section \<open>The build\<close>

text \<open>\<^verbatim>\<open>'pseu%X' % i\<close>: the upper-case hexadecimal digits of \<open>i\<close>.\<close>

function hex_nat :: "nat \<Rightarrow> string" where
  "hex_nat n = (if n < 16 then [digit_char n] else hex_nat (n div 16) @ [digit_char (n mod 16)])"
  by pat_completeness auto
termination
  by (relation "measure id") auto

declare hex_nat.simps [simp del]

fun word_loop ::
  "font \<Rightarrow> nat \<Rightarrow> (int list \<times> int list) list \<Rightarrow> (glyph list \<times> glyph) list \<Rightarrow> (glyph \<times> glyph list) list
     \<Rightarrow> error + (font \<times> (glyph list \<times> glyph) list \<times> (glyph \<times> glyph list) list)"
where
  "word_loop obj i [] word2pseu_table pseu2word_table = Inr (obj, word2pseu_table, pseu2word_table)"
| "word_loop obj i ((codepoints_k, codepoints_v) # entries) word2pseu_table pseu2word_table =
     (let pseudo_glyph_name = ''pseu'' @ hex_nat i
      in case map_result (codepoint_to_glyph_name obj) codepoints_k of
           Inl e \<Rightarrow> Inl e
         | Inr glyph_names_k \<Rightarrow>
             (case map_result (codepoint_to_glyph_name obj) codepoints_v of
                Inl e \<Rightarrow> Inl e
              | Inr glyph_names_v \<Rightarrow>
                  word_loop (insert_empty_glyph obj pseudo_glyph_name) (Suc i) entries
                    (word2pseu_table @ [(glyph_names_k, pseudo_glyph_name)])
                    (pseu2word_table @ [(pseudo_glyph_name, glyph_names_v)])))"

definition char_entry :: "font \<Rightarrow> int \<times> int \<Rightarrow> error + (glyph \<times> glyph)" where
  "char_entry obj entry =
     (case codepoint_to_glyph_name obj (fst entry) of
        Inl e \<Rightarrow> Inl e
      | Inr glyph_name_k \<Rightarrow>
          (case codepoint_to_glyph_name obj (snd entry) of
             Inl e \<Rightarrow> Inl e
           | Inr glyph_name_v \<Rightarrow> Inr (glyph_name_k, glyph_name_v)))"

text \<open>
  What \<^verbatim>\<open>build_font\<close> takes from outside is an argument here: \<open>decoded\<close> is the object
  \<^verbatim>\<open>otfccdump\<close> printed, \<open>removed\<close> the order in which the set
  \<^verbatim>\<open>codepoints_font - codepoints_final\<close> is walked, \<open>todo\<close> the order in which
  \<^verbatim>\<open>clean_unused_glyphs\<close> walks its set, \<open>entries_char\<close> and \<open>entries_word\<close> the tables
  read from the cache files, and \<open>modify_metadata\<close> the patch of the name and head
  tables. The result \<open>Inr obj\<close> is the object that \<^verbatim>\<open>save_font\<close> hands to \<^verbatim>\<open>otfccbuild\<close>,
  after taking \<^verbatim>\<open>cmap_rev\<close> out; a result \<open>Inl e\<close> is a build that raised before
  \<^verbatim>\<open>save_font\<close> was reached, so that no output file was written.
\<close>

text \<open>
  \<open>assemble\<close> is the part of \<^verbatim>\<open>build_font\<close> after the capacity assertion: the
  placeholder loop over the word entries, the loop over the character entries, and
  the three lookups.
\<close>

definition assemble :: "font \<Rightarrow> (int \<times> int) list \<Rightarrow> (int list \<times> int list) list \<Rightarrow> error + font" where
  "assemble font0 entries_char entries_word =
     (case word_loop font0 0 entries_word [] [] of
        Inl e \<Rightarrow> Inl e
      | Inr (font1, word2pseu_table, pseu2word_table) \<Rightarrow>
          (case map_result (char_entry font1) entries_char of
             Inl e \<Rightarrow> Inl e
           | Inr char2char_table \<Rightarrow>
               (case insert_empty_feature font1 ''liga_s2t'' of
                  Inl e \<Rightarrow> Inl e
                | Inr font2 \<Rightarrow>
                    (case create_word2pseu_table font2 ''liga_s2t'' word2pseu_table of
                       Inl e \<Rightarrow> Inl e
                     | Inr font3 \<Rightarrow>
                         (case create_char2char_table font3 ''liga_s2t'' char2char_table of
                            Inl e \<Rightarrow> Inl e
                          | Inr font4 \<Rightarrow>
                              create_pseu2word_table font4 ''liga_s2t'' pseu2word_table)))))"

definition build_font ::
  "font \<Rightarrow> int list \<Rightarrow> glyph list \<Rightarrow> (int \<times> int) list \<Rightarrow> (int list \<times> int list) list
     \<Rightarrow> (font \<Rightarrow> error + font) \<Rightarrow> error + font"
where
  "build_font decoded removed todo entries_char entries_word modify_metadata =
     (case remove_codepoints (load_font decoded) removed of
        Inl e \<Rightarrow> Inl e
      | Inr font1 \<Rightarrow>
          (case clean_unused_glyphs todo font1 of
             Inl e \<Rightarrow> Inl e
           | Inr font2 \<Rightarrow>
               (let available_glyph_count = int MAX_GLYPH_COUNT - int (get_glyph_count font2)
                in if \<not> available_glyph_count \<ge> int (length entries_word) then Inl AssertionError
                   else (case assemble font2 entries_char entries_word of
                           Inl e \<Rightarrow> Inl e
                         | Inr font3 \<Rightarrow>
                             (case modify_metadata font3 of
                                Inl e \<Rightarrow> Inl e
                              | Inr font4 \<Rightarrow> Inr (font4\<lparr>cmap_rev := []\<rparr>))))))"

section \<open>Notions used to state the properties\<close>

text \<open>
  The reverse-index invariant of the data model: \<^verbatim>\<open>cmap\<close> maps \<open>c\<close> to \<open>g\<close> exactly when
  \<open>c\<close> is in the reverse entry of \<open>g\<close>.
\<close>

definition rev_index_inv :: "font \<Rightarrow> bool" where
  "rev_index_inv obj \<longleftrightarrow>
     (\<forall>c g. map_of (cmap obj) c = Some g \<longleftrightarrow> c \<in> set (defaultdict_get (cmap_rev obj) g))"

text \<open>Fonts used as concrete inputs.\<close>

definition tiny_font :: font where
  "tiny_font =
     \<lparr>cmap = [], cmap_rev = [], glyph_order = [''.notdef''], glyf = [],
      GSUB = None, GPOS = None, BASE = None\<rparr>"

definition empty_gsub :: gsub_table where
  "empty_gsub = \<lparr>lookups = [], features = [(''liga_s2t'', [])], languages = [], lookupOrder = []\<rparr>"

text \<open>
  The invariant as the functions keep it: on top of \<open>rev_index_inv\<close>, no reverse entry
  lists a codepoint twice (\<^verbatim>\<open>list.remove\<close> takes out one occurrence).
\<close>

definition index_ok :: "font \<Rightarrow> bool" where
  "index_ok obj \<longleftrightarrow>
     rev_index_inv obj \<and> (\<forall>g. distinct (defaultdict_get (cmap_rev obj) g))"

text \<open>A sequence of calls of \<^verbatim>\<open>remove_codepoint\<close> and \<^verbatim>\<open>remove_codepoints\<close>.\<close>

datatype removal = Remove_codepoint int | Remove_codepoints "int list"

fun apply_removal :: "font \<Rightarrow> removal \<Rightarrow> error + font" where
  "apply_removal obj (Remove_codepoint c) = remove_codepoint obj c"
| "apply_removal obj (Remove_codepoints cs) = remove_codepoints obj cs"

fun apply_removals :: "font \<Rightarrow> removal list \<Rightarrow> error + font" where
  "apply_removals obj [] = Inr obj"
| "apply_removals obj (r # rs) =
     (case apply_removal obj r of Inl e \<Rightarrow> Inl e | Inr obj' \<Rightarrow> apply_removals obj' rs)"

definition sample_font :: font where
  "sample_font =
     \<lparr>cmap = [(''97'', ''a''), (''98'', ''a''), (''99'', ''b'')],
      cmap_rev = [],
      glyph_order = [''.notdef'', ''a'', ''b''],
      glyf = [(''.notdef'', []), (''a'', []), (''b'', [])],
      GSUB = Some \<lparr>lookups = [(''liga'', Gsub_ligature [[\<lparr>lig_from = [''a'', ''b''], lig_to = ''a''\<rparr>]]),
                              (''sing'', Gsub_single [[(''a'', ''b'')]])],
                   features = [], languages = [], lookupOrder = [''liga'', ''sing'']\<rparr>,
      GPOS = None, BASE = None\<rparr>"

definition empty_name_font :: font where
  "empty_name_font =
     \<lparr>cmap = [(''65'', [])], cmap_rev = [([], [''65''])],
      glyph_order = [''.notdef'', []], glyf = [],
      GSUB = None, GPOS = None, BASE = None\<rparr>"

text \<open>
  One substitution step: the glyphs that a lookup of one of the three types puts in
  place of \<open>g\<close> (the targets of \<^verbatim>\<open>gsub_single\<close>, the whole alternate lists of
  \<^verbatim>\<open>gsub_alternate\<close>, the outputs of the \<^verbatim>\<open>gsub_ligature\<close> rules whose input holds \<open>g\<close>).
\<close>

fun lookup_targets :: "gsub_lookup \<Rightarrow> glyph \<Rightarrow> glyph set" where
  "lookup_targets (Gsub_single subtables) g =
     snd ` {kv \<in> set (concat subtables). fst kv = g}"
| "lookup_targets (Gsub_alternate subtables) g =
     \<Union> (set ` snd ` {kv \<in> set (concat subtables). fst kv = g})"
| "lookup_targets (Gsub_ligature subtables) g =
     lig_to ` {rule \<in> set (concat subtables). g \<in> set (lig_from rule)}"
| "lookup_targets (Gsub_multiple subtables) g = {}"
| "lookup_targets (Gsub_other ty) g = {}"

definition font_targets :: "font \<Rightarrow> glyph \<Rightarrow> glyph set" where
  "font_targets obj g =
     (case GSUB obj of
        None \<Rightarrow> {}
      | Some table \<Rightarrow> \<Union> ((\<lambda>lookup. lookup_targets lookup g) ` snd ` set (lookups table)))"

fun supported :: "gsub_lookup \<Rightarrow> bool" where
  "supported (Gsub_single subtables) = True"
| "supported (Gsub_alternate subtables) = True"
| "supported (Gsub_ligature subtables) = True"
| "supported (Gsub_multiple subtables) = False"
| "supported (Gsub_other ty) = False"

definition chain_font :: font where
  "chain_font =
     \<lparr>cmap = [(''97'', ''a'')], cmap_rev = [(''a'', [''97''])],
      glyph_order = [''.notdef'', ''a'', ''b'', ''c''],
      glyf = [(''.notdef'', []), (''a'', []), (''b'', []), (''c'', [])],
      GSUB = Some \<lparr>lookups = [(''sing'', Gsub_single [[(''a'', ''b''), (''b'', ''c'')]])],
                   features = [], languages = [], lookupOrder = [''sing'']\<rparr>,
      GPOS = None, BASE = None\<rparr>"

text \<open>
  The condition under which pruning does not cut a substitution that starts at a glyph
  of the cmap: no ligature rule whose input holds one of the glyphs \<open>V\<close> also holds
  one of the glyphs \<open>U\<close>. It is used with \<open>V\<close> the glyphs targeted by \<^verbatim>\<open>cmap\<close> and
  \<open>U\<close> the glyphs that pruning removes.
\<close>

fun lig_ok :: "glyph set \<Rightarrow> glyph set \<Rightarrow> gsub_lookup \<Rightarrow> bool" where
  "lig_ok V U (Gsub_ligature subtables) =
     (\<forall>rule\<in>set (concat subtables).
        set (lig_from rule) \<inter> V \<noteq> {} \<longrightarrow> set (lig_from rule) \<inter> U = {})"
| "lig_ok V U (Gsub_single subtables) = True"
| "lig_ok V U (Gsub_alternate subtables) = True"
| "lig_ok V U (Gsub_multiple subtables) = True"
| "lig_ok V U (Gsub_other ty) = True"

definition lig_inputs_kept :: "font \<Rightarrow> glyph set \<Rightarrow> bool" where
  "lig_inputs_kept obj U \<longleftrightarrow>
     (case GSUB obj of
        None \<Rightarrow> True
      | Some table \<Rightarrow> \<forall>lookup\<in>snd ` set (lookups table). lig_ok (snd ` set (cmap obj)) U lookup)"

definition ligature_font :: font where
  "ligature_font =
     \<lparr>cmap = [(''97'', ''a'')], cmap_rev = [(''a'', [''97''])],
      glyph_order = [''.notdef'', ''a'', ''u'', ''t''],
      glyf = [(''.notdef'', []), (''a'', []), (''u'', []), (''t'', [])],
      GSUB = Some \<lparr>lookups = [(''liga'', Gsub_ligature [[\<lparr>lig_from = [''a'', ''u''], lig_to = ''t''\<rparr>]])],
                   features = [], languages = [], lookupOrder = [''liga'']\<rparr>,
      GPOS = None, BASE = None\<rparr>"

definition ligature_font_pruned :: font where
  "ligature_font_pruned =
     \<lparr>cmap = [(''97'', ''a'')], cmap_rev = [(''a'', [''97''])],
      glyph_order = [''.notdef'', ''a'', ''t''],
      glyf = [(''.notdef'', []), (''a'', []), (''t'', [])],
      GSUB = Some \<lparr>lookups = [(''liga'', Gsub_ligature [[]])],
                   features = [], languages = [], lookupOrder = [''liga'']\<rparr>,
      GPOS = None, BASE = None\<rparr>"

definition ligature_font_pruned_twice :: font where
  "ligature_font_pruned_twice =
     \<lparr>cmap = [(''97'', ''a'')], cmap_rev = [(''a'', [''97''])],
      glyph_order = [''.notdef'', ''a''],
      glyf = [(''.notdef'', []), (''a'', [])],
      GSUB = Some \<lparr>lookups = [(''liga'', Gsub_ligature [[]])],
                   features = [], languages = [], lookupOrder = [''liga'']\<rparr>,
      GPOS = None, BASE = None\<rparr>"

definition chain_font_pruned :: font where
  "chain_font_pruned =
     \<lparr>cmap = [(''97'', ''a'')], cmap_rev = [(''a'', [''97''])],
      glyph_order = [''.notdef'', ''a'', ''b''],
      glyf = [(''.notdef'', []), (''a'', []), (''b'', [])],
      GSUB = Some \<lparr>lookups = [(''sing'', Gsub_single [[(''a'', ''b'')]])],
                   features = [], languages = [], lookupOrder = [''sing'']\<rparr>,
      GPOS = None, BASE = None\<rparr>"

text \<open>
  Where a lookup refers to a glyph, by lookup type, as the design lists the positions:
  key and value of \<^verbatim>\<open>gsub_single\<close>; key and alternates of \<^verbatim>\<open>gsub_alternate\<close>; inputs and
  output of a \<^verbatim>\<open>gsub_ligature\<close> rule; key of \<^verbatim>\<open>gsub_multiple\<close>, \<^verbatim>\<open>gpos_single\<close> and
  \<^verbatim>\<open>gpos_cursive\<close>; keys of the two maps of \<^verbatim>\<open>gpos_pair\<close>, \<^verbatim>\<open>gpos_mark_to_base\<close> and
  \<^verbatim>\<open>gpos_mark_to_mark\<close>; the marks map and the keys of the anchor maps under the bases of
  \<^verbatim>\<open>gpos_mark_to_ligature\<close>; for \<^verbatim>\<open>gpos_context\<close> the \<^verbatim>\<open>input\<close> and \<^verbatim>\<open>lookups\<close> of a rule, the
  coverage list or the class lists, by the subtable's shape; for \<^verbatim>\<open>gpos_chaining\<close> the
  \<^verbatim>\<open>input\<close>, \<^verbatim>\<open>backtrack\<close>, \<^verbatim>\<open>lookahead\<close> and \<^verbatim>\<open>lookups\<close> of a rule.
\<close>

fun gsub_mentions :: "glyph \<Rightarrow> gsub_lookup \<Rightarrow> bool" where
  "gsub_mentions g (Gsub_single subtables) =
     (\<exists>kv\<in>set (concat subtables). fst kv = g \<or> snd kv = g)"
| "gsub_mentions g (Gsub_alternate subtables) =
     (\<exists>kv\<in>set (concat subtables). fst kv = g \<or> g \<in> set (snd kv))"
| "gsub_mentions g (Gsub_ligature subtables) =
     (\<exists>rule\<in>set (concat subtables). g \<in> set (lig_from rule) \<or> g = lig_to rule)"
| "gsub_mentions g (Gsub_multiple subtables) = (\<exists>kv\<in>set (concat subtables). fst kv = g)"
| "gsub_mentions g (Gsub_other ty) = False"

definition context_mentions :: "glyph \<Rightarrow> ctx_subtable \<Rightarrow> bool" where
  "context_mentions g subtable =
     (case st_rules subtable of
        Some rules \<Rightarrow>
          (\<exists>rule\<in>set rules. g \<in> set (get_or_empty (rule_input rule))
                             \<or> g \<in> set (get_or_empty (rule_lookups rule)))
      | None \<Rightarrow>
          (case (st_coverage subtable, st_pos subtable) of
             (Some coverage, Some pos) \<Rightarrow> g \<in> set coverage
           | _ \<Rightarrow>
               (case st_classes subtable of
                  Some classes \<Rightarrow> (\<exists>class_list\<in>set classes. g \<in> set class_list)
                | None \<Rightarrow> False)))"

definition chaining_mentions :: "glyph \<Rightarrow> ctx_subtable \<Rightarrow> bool" where
  "chaining_mentions g subtable =
     (case st_rules subtable of
        Some rules \<Rightarrow>
          (\<exists>rule\<in>set rules. g \<in> set (get_or_empty (rule_input rule))
                             \<or> g \<in> set (get_or_empty (rule_backtrack rule))
                             \<or> g \<in> set (get_or_empty (rule_lookahead rule))
                             \<or> g \<in> set (get_or_empty (rule_lookups rule)))
      | None \<Rightarrow> False)"

fun gpos_mentions :: "glyph \<Rightarrow> gpos_lookup \<Rightarrow> bool" where
  "gpos_mentions g (Gpos_single subtables) = (\<exists>kv\<in>set (concat subtables). fst kv = g)"
| "gpos_mentions g (Gpos_pair subtables) =
     (\<exists>subtable\<in>set subtables. g \<in> fst ` set (fst subtable) \<or> g \<in> fst ` set (snd subtable))"
| "gpos_mentions g (Gpos_mark_to_base subtables) =
     (\<exists>subtable\<in>set subtables. g \<in> fst ` set (fst subtable) \<or> g \<in> fst ` set (snd subtable))"
| "gpos_mentions g (Gpos_mark_to_mark subtables) =
     (\<exists>subtable\<in>set subtables. g \<in> fst ` set (fst subtable) \<or> g \<in> fst ` set (snd subtable))"
| "gpos_mentions g (Gpos_mark_to_ligature subtables) =
     (\<exists>subtable\<in>set subtables.
        g \<in> fst ` set (fst subtable)
        \<or> (\<exists>base\<in>set (snd subtable). \<exists>component\<in>set (snd base). g \<in> fst ` set (snd component)))"
| "gpos_mentions g (Gpos_cursive subtables) = (\<exists>kv\<in>set (concat subtables). fst kv = g)"
| "gpos_mentions g (Gpos_context subtables) = (\<exists>subtable\<in>set subtables. context_mentions g subtable)"
| "gpos_mentions g (Gpos_chaining subtables) = (\<exists>subtable\<in>set subtables. chaining_mentions g subtable)"
| "gpos_mentions g (Gpos_other ty) = False"

text \<open>
  The lists from which \<^verbatim>\<open>remove_glyph\<close> takes one occurrence of the glyph (alternates,
  coverage, classes) hold the glyph at most once.
\<close>

fun gsub_once :: "glyph \<Rightarrow> gsub_lookup \<Rightarrow> bool" where
  "gsub_once g (Gsub_alternate subtables) =
     (\<forall>kv\<in>set (concat subtables). count_list (snd kv) g \<le> 1)"
| "gsub_once g (Gsub_single subtables) = True"
| "gsub_once g (Gsub_ligature subtables) = True"
| "gsub_once g (Gsub_multiple subtables) = True"
| "gsub_once g (Gsub_other ty) = True"

definition context_once :: "glyph \<Rightarrow> ctx_subtable \<Rightarrow> bool" where
  "context_once g subtable =
     (case st_rules subtable of
        Some rules \<Rightarrow> True
      | None \<Rightarrow>
          (case (st_coverage subtable, st_pos subtable) of
             (Some coverage, Some pos) \<Rightarrow> count_list coverage g \<le> 1
           | _ \<Rightarrow>
               (case st_classes subtable of
                  Some classes \<Rightarrow> (\<forall>class_list\<in>set classes. count_list class_list g \<le> 1)
                | None \<Rightarrow> True)))"

fun gpos_once :: "glyph \<Rightarrow> gpos_lookup \<Rightarrow> bool" where
  "gpos_once g (Gpos_context subtables) = (\<forall>subtable\<in>set subtables. context_once g subtable)"
| "gpos_once g (Gpos_single subtables) = True"
| "gpos_once g (Gpos_pair subtables) = True"
| "gpos_once g (Gpos_mark_to_base subtables) = True"
| "gpos_once g (Gpos_mark_to_mark subtables) = True"
| "gpos_once g (Gpos_mark_to_ligature subtables) = True"
| "gpos_once g (Gpos_cursive subtables) = True"
| "gpos_once g (Gpos_chaining subtables) = True"
| "gpos_once g (Gpos_other ty) = True"

fun is_multiple :: "gsub_lookup \<Rightarrow> bool" where
  "is_multiple (Gsub_multiple subtables) = True"
| "is_multiple (Gsub_single subtables) = False"
| "is_multiple (Gsub_alternate subtables) = False"
| "is_multiple (Gsub_ligature subtables) = False"
| "is_multiple (Gsub_other ty) = False"

text \<open>The lookups that \<^verbatim>\<open>remove_glyph\<close> walks: none for a table that is absent.\<close>

definition font_gsub_lookups :: "font \<Rightarrow> gsub_lookup list" where
  "font_gsub_lookups obj = (case GSUB obj of None \<Rightarrow> [] | Some table \<Rightarrow> map snd (lookups table))"

definition font_gpos_lookups :: "font \<Rightarrow> gpos_lookup list" where
  "font_gpos_lookups obj = (case GPOS obj of None \<Rightarrow> [] | Some entries \<Rightarrow> map snd entries)"

definition lookups_after :: "font \<Rightarrow> glyph \<Rightarrow> error + (gsub_lookup list \<times> gpos_lookup list)" where
  "lookups_after obj g =
     (case remove_glyph obj g of
        Inl e \<Rightarrow> Inl e
      | Inr obj' \<Rightarrow> Inr (font_gsub_lookups obj', font_gpos_lookups obj'))"

definition lookups_font :: font where
  "lookups_font =
     \<lparr>cmap = [], cmap_rev = [],
      glyph_order = [''.notdef'', ''a'', ''b'', ''x'', ''pseu0''], glyf = [],
      GSUB = Some
        \<lparr>lookups =
           [(''sing'', Gsub_single [[(''a'', ''x''), (''x'', ''b''), (''b'', ''a'')]]),
            (''alt'', Gsub_alternate [[(''a'', [''x'', ''b''])]]),
            (''liga'', Gsub_ligature [[\<lparr>lig_from = [''a'', ''x''], lig_to = ''b''\<rparr>,
                                      \<lparr>lig_from = [''a'', ''b''], lig_to = ''a''\<rparr>]]),
            (''pseu2word'', Gsub_multiple [[(''pseu0'', [''a'', ''x''])]])],
         features = [], languages = [], lookupOrder = []\<rparr>,
      GPOS = Some
        [(''kern'', Gpos_pair [([(''a'', []), (''x'', [])], [(''x'', [])])]),
         (''ctx'', Gpos_context
            [\<lparr>st_rules = None, st_coverage = Some [''a'', ''x''],
              st_pos = Some [[(''dx'', 1)], [(''dx'', 2)]], st_classes = None\<rparr>])],
      BASE = None\<rparr>"

definition duplicates_font :: font where
  "duplicates_font =
     \<lparr>cmap = [], cmap_rev = [],
      glyph_order = [''.notdef'', ''a'', ''b'', ''x'', ''pseu0''], glyf = [],
      GSUB = Some
        \<lparr>lookups =
           [(''alt'', Gsub_alternate [[(''a'', [''x'', ''x''])]]),
            (''pseu2word'', Gsub_multiple [[(''pseu0'', [''a'', ''b''])]])],
         features = [], languages = [], lookupOrder = []\<rparr>,
      GPOS = Some
        [(''ctx'', Gpos_context
            [\<lparr>st_rules = None, st_coverage = Some [''x'', ''x''],
              st_pos = Some [[(''dx'', 1)], [(''dx'', 2)]], st_classes = None\<rparr>])],
      BASE = None\<rparr>"

text \<open>
  A coverage-shaped subtable is aligned when it has a position record for every
  entry of the coverage list; then \<^verbatim>\<open>pos.pop(index)\<close> cannot raise.
\<close>

definition context_aligned :: "ctx_subtable \<Rightarrow> bool" where
  "context_aligned subtable =
     (case st_rules subtable of
        Some rules \<Rightarrow> True
      | None \<Rightarrow>
          (case (st_coverage subtable, st_pos subtable) of
             (Some coverage, Some pos) \<Rightarrow> length coverage \<le> length pos
           | _ \<Rightarrow> True))"

fun gpos_aligned :: "gpos_lookup \<Rightarrow> bool" where
  "gpos_aligned (Gpos_context subtables) = (\<forall>subtable\<in>set subtables. context_aligned subtable)"
| "gpos_aligned (Gpos_single subtables) = True"
| "gpos_aligned (Gpos_pair subtables) = True"
| "gpos_aligned (Gpos_mark_to_base subtables) = True"
| "gpos_aligned (Gpos_mark_to_mark subtables) = True"
| "gpos_aligned (Gpos_mark_to_ligature subtables) = True"
| "gpos_aligned (Gpos_cursive subtables) = True"
| "gpos_aligned (Gpos_chaining subtables) = True"
| "gpos_aligned (Gpos_other ty) = True"

section \<open>Properties of the partitioner\<close>

lemma grouper_short: "length xs < n \<Longrightarrow> grouper xs n = Some (if xs = [] then [] else [xs])"
  by (subst grouper.simps) simp

lemma grouper_long:
  "\<not> length xs < n \<Longrightarrow>
     grouper xs n = Option.bind (grouper (drop n xs) n) (\<lambda>rest. Some (take n xs # rest))"
  by (subst grouper.simps) simp

lemma grouper_props:
  "0 < n \<Longrightarrow>
     \<exists>gs. grouper xs n = Some gs \<and> concat gs = xs
        \<and> (\<forall>g\<in>set gs. g \<noteq> [] \<and> length g \<le> n \<and> set g \<subseteq> set xs)
        \<and> (\<forall>g\<in>set (butlast gs). length g = n)"
proof (induction xs rule: length_induct)
  case (1 xs)
  note pos = \<open>0 < n\<close>
  show ?case
  proof (cases "length xs < n")
    case True
    then show ?thesis by (simp add: grouper_short)
  next
    case False
    with pos have "length (drop n xs) < length xs" by simp
    with 1(1) pos have "\<exists>gs. grouper (drop n xs) n = Some gs \<and> concat gs = drop n xs
        \<and> (\<forall>g\<in>set gs. g \<noteq> [] \<and> length g \<le> n \<and> set g \<subseteq> set (drop n xs))
        \<and> (\<forall>g\<in>set (butlast gs). length g = n)"
      by blast
    then obtain gs where g1: "grouper (drop n xs) n = Some gs" and g2: "concat gs = drop n xs"
      and g3: "\<forall>g\<in>set gs. g \<noteq> [] \<and> length g \<le> n \<and> set g \<subseteq> set (drop n xs)"
      and g4: "\<forall>g\<in>set (butlast gs). length g = n"
      by blast
    have eq: "grouper xs n = Some (take n xs # gs)"
      using False g1 by (simp add: grouper_long)
    have len: "length (take n xs) = n" using False by simp
    have ne: "take n xs \<noteq> []" using len pos by auto
    have c1: "concat (take n xs # gs) = xs" using g2 by simp
    have sub: "\<forall>g\<in>set gs. g \<noteq> [] \<and> length g \<le> n \<and> set g \<subseteq> set xs"
    proof
      fix g assume "g \<in> set gs"
      with g3 have "g \<noteq> [] \<and> length g \<le> n \<and> set g \<subseteq> set (drop n xs)" by blast
      moreover have "set (drop n xs) \<subseteq> set xs" by (rule set_drop_subset)
      ultimately show "g \<noteq> [] \<and> length g \<le> n \<and> set g \<subseteq> set xs" by blast
    qed
    have c2: "\<forall>g\<in>set (take n xs # gs). g \<noteq> [] \<and> length g \<le> n \<and> set g \<subseteq> set xs"
      using sub ne len set_take_subset [of n xs] by simp
    have c3: "\<forall>g\<in>set (butlast (take n xs # gs)). length g = n"
      using g4 len by simp
    show ?thesis using eq c1 c2 c3 by blast
  qed
qed

lemma groupby_concat: "concat (map snd (groupby key xs)) = xs"
  by (induction key xs rule: groupby.induct) simp_all

lemma groupby_keys: "(k, g) \<in> set (groupby key xs) \<Longrightarrow> a \<in> set g \<Longrightarrow> key a = k"
proof (induction key xs rule: groupby.induct)
  case (1 key)
  then show ?case by simp
next
  case (2 key x xs)
  from 2(2) have "(k, g) = (key x, x # takeWhile (\<lambda>y. key y = key x) xs)
      \<or> (k, g) \<in> set (groupby key (dropWhile (\<lambda>y. key y = key x) xs))"
    by simp
  then show ?case
  proof
    assume "(k, g) = (key x, x # takeWhile (\<lambda>y. key y = key x) xs)"
    then have k: "k = key x" and g: "g = x # takeWhile (\<lambda>y. key y = key x) xs" by simp_all
    from 2(3) g have "a = x \<or> a \<in> set (takeWhile (\<lambda>y. key y = key x) xs)" by simp
    then show ?thesis using k by (auto dest: set_takeWhileD)
  next
    assume "(k, g) \<in> set (groupby key (dropWhile (\<lambda>y. key y = key x) xs))"
    then show ?thesis using 2(1) 2(3) by blast
  qed
qed

lemma grouper2_loop_props:
  "0 < n \<Longrightarrow>
     \<exists>gs. grouper2_loop groups n = Some gs \<and> concat gs = concat (map snd groups)
        \<and> (\<forall>g\<in>set gs. g \<noteq> [] \<and> length g \<le> n \<and> (\<exists>kv\<in>set groups. set g \<subseteq> set (snd kv)))"
proof (induction groups)
  case Nil
  then show ?case by simp
next
  case (Cons kv groups)
  obtain k vx where kv: "kv = (k, vx)" by (cases kv)
  from Cons obtain rest where r1: "grouper2_loop groups n = Some rest"
    and r2: "concat rest = concat (map snd groups)"
    and r3: "\<forall>g\<in>set rest. g \<noteq> [] \<and> length g \<le> n \<and> (\<exists>kv\<in>set groups. set g \<subseteq> set (snd kv))"
    by blast
  from grouper_props [OF Cons.prems, of vx] obtain vs where v1: "grouper vx n = Some vs"
    and v2: "concat vs = vx"
    and v3: "\<forall>g\<in>set vs. g \<noteq> [] \<and> length g \<le> n \<and> set g \<subseteq> set vx"
    by blast
  have eq: "grouper2_loop (kv # groups) n = Some (vs @ rest)"
    using kv r1 v1 by simp
  have c1: "concat (vs @ rest) = concat (map snd (kv # groups))"
    using kv r2 v2 by simp
  have c2: "\<forall>g\<in>set (vs @ rest). g \<noteq> [] \<and> length g \<le> n
      \<and> (\<exists>kv'\<in>set (kv # groups). set g \<subseteq> set (snd kv'))"
  proof
    fix g assume "g \<in> set (vs @ rest)"
    then have "g \<in> set vs \<or> g \<in> set rest" by simp
    then show "g \<noteq> [] \<and> length g \<le> n \<and> (\<exists>kv'\<in>set (kv # groups). set g \<subseteq> set (snd kv'))"
    proof
      assume "g \<in> set vs"
      with v3 have "g \<noteq> [] \<and> length g \<le> n \<and> set g \<subseteq> set (snd kv)" using kv by simp
      then show ?thesis by simp
    next
      assume "g \<in> set rest"
      with r3 have "g \<noteq> [] \<and> length g \<le> n \<and> (\<exists>kv\<in>set groups. set g \<subseteq> set (snd kv))" by blast
      then show ?thesis by auto
    qed
  qed
  show ?case using eq c1 c2 by blast
qed

lemma grouper2_props:
  assumes "0 < n"
  shows "\<exists>gs. grouper2 xs n key = Some gs \<and> concat gs = xs
        \<and> (\<forall>g\<in>set gs. g \<noteq> [] \<and> length g \<le> n \<and> (\<forall>a\<in>set g. \<forall>b\<in>set g. key a = key b))"
proof -
  from grouper2_loop_props [OF assms, of "groupby key xs"]
  obtain gs where g1: "grouper2_loop (groupby key xs) n = Some gs"
    and g2: "concat gs = concat (map snd (groupby key xs))"
    and g3: "\<forall>g\<in>set gs. g \<noteq> [] \<and> length g \<le> n \<and> (\<exists>kv\<in>set (groupby key xs). set g \<subseteq> set (snd kv))"
    by blast
  have c2: "\<forall>g\<in>set gs. g \<noteq> [] \<and> length g \<le> n \<and> (\<forall>a\<in>set g. \<forall>b\<in>set g. key a = key b)"
  proof
    fix g assume g: "g \<in> set gs"
    with g3 obtain kv where kv: "kv \<in> set (groupby key xs)" "set g \<subseteq> set (snd kv)"
      by blast
    have "\<forall>a\<in>set g. key a = fst kv"
    proof
      fix a assume "a \<in> set g"
      with kv(2) have "a \<in> set (snd kv)" by blast
      with kv(1) groupby_keys [of "fst kv" "snd kv" key xs a] show "key a = fst kv" by simp
    qed
    then have "\<forall>a\<in>set g. \<forall>b\<in>set g. key a = key b" by simp
    with g3 g show "g \<noteq> [] \<and> length g \<le> n \<and> (\<forall>a\<in>set g. \<forall>b\<in>set g. key a = key b)" by blast
  qed
  have "grouper2 xs n key = Some gs" using g1 by (simp add: grouper2_def)
  moreover have "concat gs = xs" using g2 by (simp add: groupby_concat)
  ultimately show ?thesis using c2 by blast
qed

text \<open>\<^verbatim>\<open>grouper\<close> returns only for a positive limit: with limit 0 it never ends.\<close>

lemma grouper_Some_positive:
  assumes "grouper xs n = Some groups"
  shows "0 < n"
  using assms
proof (rule grouper.raw_induct [rotated, where P = "\<lambda>xs n groups. 0 < n"])
  fix grouper' :: "'a list \<Rightarrow> nat \<Rightarrow> 'a list list option" and xs n groups
  assume ih: "\<And>xs n y. grouper' xs n = Some y \<Longrightarrow> 0 < n"
    and eq: "(if length xs < n then Some (if xs = [] then [] else [xs])
      else Option.bind (grouper' (drop n xs) n) (\<lambda>rest. Some (take n xs # rest))) = Some groups"
  show "0 < n"
  proof (cases "length xs < n")
    case True
    then show ?thesis by simp
  next
    case False
    with eq obtain rest where "grouper' (drop n xs) n = Some rest"
      by (auto simp: bind_eq_Some_conv)
    from ih [OF this] show ?thesis .
  qed
qed

lemma grouper_zero: "grouper xs 0 = None"
proof (cases "grouper xs 0")
  case None
  then show ?thesis .
next
  case (Some groups)
  from grouper_Some_positive [OF this] show ?thesis by simp
qed

text \<open>
  C5. For every list and every limit of at least 1, \<^verbatim>\<open>grouper\<close> returns; the groups it
  yields concatenate back to the list in order, every group holds between 1 and
  \<open>n\<close> items (so none is empty), and every group but the last holds exactly \<open>n\<close>.
\<close>

theorem grouper_partition:
  assumes "1 \<le> n"
  shows "\<exists>groups. grouper xs n = Some groups \<and> concat groups = xs
           \<and> (\<forall>g\<in>set groups. 1 \<le> length g \<and> length g \<le> n)
           \<and> (\<forall>g\<in>set (butlast groups). length g = n)"
proof -
  from assms have "0 < n" by simp
  from grouper_props [OF this, of xs] obtain gs where g1: "grouper xs n = Some gs"
    and g2: "concat gs = xs"
    and g3: "\<forall>g\<in>set gs. g \<noteq> [] \<and> length g \<le> n \<and> set g \<subseteq> set xs"
    and g4: "\<forall>g\<in>set (butlast gs). length g = n"
    by blast
  have "\<forall>g\<in>set gs. 1 \<le> length g \<and> length g \<le> n"
  proof
    fix g assume "g \<in> set gs"
    with g3 have "g \<noteq> []" and "length g \<le> n" by blast+
    then show "1 \<le> length g \<and> length g \<le> n" by (cases g) simp_all
  qed
  with g1 g2 g4 show ?thesis by blast
qed

theorem grouper_partition_witness:
  "(1::nat) \<le> 2 \<and> grouper [1, 2, 3, 4, 5 :: nat] 2 = Some [[1, 2], [3, 4], [5]]
     \<and> concat [[1, 2], [3, 4], [5 :: nat]] = [1, 2, 3, 4, 5]
     \<and> map length [[1, 2], [3, 4], [5 :: nat]] = [2, 2, 1]"
proof -
  have "grouper [1, 2, 3, 4, 5 :: nat] 2 = Some [[1, 2], [3, 4], [5]]"
    by (simp add: grouper.simps)
  with grouper_partition [of 2 "[1, 2, 3, 4, 5 :: nat]"] show ?thesis by simp
qed

text \<open>
  C6. For every list, every limit of at least 1 and every key function, \<^verbatim>\<open>grouper2\<close>
  returns, and no group it yields holds two items with different keys.
\<close>

theorem grouper2_one_key_per_group:
  assumes "1 \<le> n"
  shows "\<exists>groups. grouper2 xs n key = Some groups
           \<and> (\<forall>g\<in>set groups. \<forall>a\<in>set g. \<forall>b\<in>set g. key a = key b)"
proof -
  from assms have "0 < n" by simp
  from grouper2_props [OF this, of xs key] show ?thesis by blast
qed

theorem grouper2_one_key_per_group_witness:
  "(1::nat) \<le> 3
     \<and> grouper2 [''AA'', ''BBB'', ''CCC'', ''DDD'', ''EE''] 3 length
         = Some [[''AA''], [''BBB'', ''CCC'', ''DDD''], [''EE'']]"
proof -
  have "grouper2 [''AA'', ''BBB'', ''CCC'', ''DDD'', ''EE''] 3 length
         = Some [[''AA''], [''BBB'', ''CCC'', ''DDD''], [''EE'']]"
    by (simp add: grouper2_def grouper.simps)
  with grouper2_one_key_per_group [of 3 "[''AA'', ''BBB'', ''CCC'', ''DDD'', ''EE'']" length]
  show ?thesis by simp
qed

section \<open>Properties of the lookup assembler and the build\<close>

lemma sorted_wrt_concat_nth:
  "sorted_wrt P (concat gs) \<Longrightarrow> i < j \<Longrightarrow> j < length gs \<Longrightarrow>
     a \<in> set (gs ! i) \<Longrightarrow> b \<in> set (gs ! j) \<Longrightarrow> P a b"
proof (induction gs arbitrary: i j)
  case Nil
  then show ?case by simp
next
  case (Cons g gs)
  from Cons.prems(1) have s: "sorted_wrt P (concat gs)"
    and cross: "\<forall>x\<in>set g. \<forall>y\<in>set (concat gs). P x y"
    by (simp_all add: sorted_wrt_append)
  from Cons.prems(2) obtain j' where j: "j = Suc j'" by (cases j) simp_all
  with Cons.prems(3) have j'len: "j' < length gs" by simp
  from Cons.prems(5) j have b: "b \<in> set (gs ! j')" by simp
  show ?case
  proof (cases i)
    case 0
    with Cons.prems(4) have "a \<in> set g" by simp
    moreover from b j'len have "b \<in> set (concat gs)" by auto
    ultimately show ?thesis using cross by blast
  next
    case (Suc i')
    with Cons.prems(2,4) j have "i' < j'" and "a \<in> set (gs ! i')" by simp_all
    with Cons.IH [OF s _ j'len _ b] show ?thesis by blast
  qed
qed

lemma register_lookup_ok:
  "GSUB obj = Some table \<Longrightarrow> map_of (features table) feature_name = Some names \<Longrightarrow>
     register_lookup obj feature_name lookup_name lookup =
       Inr (obj\<lparr>GSUB := Some
              (table\<lparr>features := AList.update feature_name (names @ [lookup_name]) (features table),
                     lookups := AList.update lookup_name lookup (lookups table),
                     lookupOrder := lookupOrder table @ [lookup_name]\<rparr>)\<rparr>)"
  by (simp add: register_lookup_def)

lemma register_lookup_stored:
  "GSUB obj = Some table \<Longrightarrow> map_of (features table) feature_name = Some names \<Longrightarrow>
     \<exists>obj' table'. register_lookup obj feature_name lookup_name lookup = Inr obj'
        \<and> GSUB obj' = Some table' \<and> map_of (lookups table') lookup_name = Some lookup"
  by (simp add: register_lookup_def update_conv')


lemma groups_order:
  fixes groups :: "(glyph list \<times> glyph) list list"
  assumes uni: "\<forall>g\<in>set groups. \<forall>a\<in>set g. \<forall>b\<in>set g. length (fst a) = length (fst b)"
    and srt: "sorted_wrt (\<lambda>a b. length (fst a) \<ge> length (fst b)) (concat groups)"
    and i: "i < length groups" and j: "j < length groups"
    and c1: "c1 \<in> set (groups ! i)" and c2: "c2 \<in> set (groups ! j)"
    and gt: "length (fst c1) > length (fst c2)"
  shows "i < j"
proof (rule ccontr)
  assume "\<not> i < j"
  then consider "j = i" | "j < i" by linarith
  then show False
  proof cases
    case 1
    from i have "groups ! i \<in> set groups" by simp
    with uni have "\<forall>a\<in>set (groups ! i). \<forall>b\<in>set (groups ! i). length (fst a) = length (fst b)"
      by blast
    with c1 c2 1 have "length (fst c1) = length (fst c2)" by blast
    with gt show False by simp
  next
    case 2
    from sorted_wrt_concat_nth [OF srt 2 i c2 c1] have "length (fst c2) \<ge> length (fst c1)" .
    with gt show False by simp
  qed
qed


text \<open>
  C9. When the feature is registered, \<^verbatim>\<open>create_word2pseu_table\<close> stores a
  \<^verbatim>\<open>gsub_ligature\<close> lookup whose subtables, read one after the other, hold the rules of
  the entries in the entries' own order. For entries sorted longest source first,
  a rule with a longer source therefore stands in an earlier subtable than any rule
  with a shorter source.
\<close>

theorem word2pseu_longest_first:
  assumes "GSUB obj = Some table"
    and "map_of (features table) feature_name = Some names"
    and "sorted_wrt (\<lambda>a b. length (fst a) \<ge> length (fst b)) conversions"
  shows "\<exists>obj' table' subtables.
           create_word2pseu_table obj feature_name conversions = Inr obj'
         \<and> GSUB obj' = Some table'
         \<and> map_of (lookups table') ''word2pseu'' = Some (Gsub_ligature subtables)
         \<and> concat subtables = map (\<lambda>(k, p). \<lparr>lig_from = k, lig_to = p\<rparr>) conversions
         \<and> (\<forall>i j r1 r2. i < length subtables \<and> j < length subtables
               \<and> r1 \<in> set (subtables ! i) \<and> r2 \<in> set (subtables ! j)
               \<and> length (lig_from r1) > length (lig_from r2) \<longrightarrow> i < j)"
proof -
  let ?key = "\<lambda>conversion_item :: glyph list \<times> glyph. length (fst conversion_item)"
  let ?mk = "\<lambda>(k, p). \<lparr>lig_from = k, lig_to = p\<rparr> :: ligature"
  have "0 < SUBTABLE_MAX_COUNT" by (simp add: SUBTABLE_MAX_COUNT_def)
  from grouper2_props [OF this, of conversions ?key]
  obtain groups where g1: "grouper2 conversions SUBTABLE_MAX_COUNT ?key = Some groups"
    and g2: "concat groups = conversions"
    and g3: "\<forall>g\<in>set groups. g \<noteq> [] \<and> length g \<le> SUBTABLE_MAX_COUNT
               \<and> (\<forall>a\<in>set g. \<forall>b\<in>set g. ?key a = ?key b)"
    by blast
  from g3 have uni: "\<forall>g\<in>set groups. \<forall>a\<in>set g. \<forall>b\<in>set g. length (fst a) = length (fst b)"
    by blast
  from assms(3) g2 have srt: "sorted_wrt (\<lambda>a b. length (fst a) \<ge> length (fst b)) (concat groups)"
    by simp
  let ?subtables = "map (map ?mk) groups"
  from register_lookup_stored [OF assms(1,2), of "''word2pseu''" "Gsub_ligature ?subtables"]
  obtain obj' table' where
    r1: "register_lookup obj feature_name ''word2pseu'' (Gsub_ligature ?subtables) = Inr obj'"
    and r2: "GSUB obj' = Some table'"
    and r3: "map_of (lookups table') ''word2pseu'' = Some (Gsub_ligature ?subtables)"
    by blast
  have run: "create_word2pseu_table obj feature_name conversions = Inr obj'"
    using g1 r1 by (simp add: create_word2pseu_table_def)
  have flat: "concat ?subtables = map ?mk conversions"
    unfolding g2 [symmetric] by (simp add: map_concat)
  have order: "\<forall>i j r1 r2. i < length ?subtables \<and> j < length ?subtables
               \<and> r1 \<in> set (?subtables ! i) \<and> r2 \<in> set (?subtables ! j)
               \<and> length (lig_from r1) > length (lig_from r2) \<longrightarrow> i < j"
  proof (intro allI impI)
    fix i j r1 r2
    assume h: "i < length ?subtables \<and> j < length ?subtables
               \<and> r1 \<in> set (?subtables ! i) \<and> r2 \<in> set (?subtables ! j)
               \<and> length (lig_from r1) > length (lig_from r2)"
    then have i: "i < length groups" and j: "j < length groups" by simp_all
    from h i have "r1 \<in> ?mk ` set (groups ! i)" by simp
    then obtain c1 where c1: "c1 \<in> set (groups ! i)" "r1 = ?mk c1" by blast
    from h j have "r2 \<in> ?mk ` set (groups ! j)" by simp
    then obtain c2 where c2: "c2 \<in> set (groups ! j)" "r2 = ?mk c2" by blast
    from c1(2) have l1: "length (lig_from r1) = length (fst c1)" by (cases c1) simp
    from c2(2) have l2: "length (lig_from r2) = length (fst c2)" by (cases c2) simp
    from h l1 l2 have gt: "length (fst c1) > length (fst c2)" by simp
    from groups_order [OF uni srt i j c1(1) c2(1) gt] show "i < j" .
  qed
  show ?thesis
    apply (rule exI [of _ obj'])
    apply (rule exI [of _ table'])
    apply (rule exI [of _ ?subtables])
    apply (intro conjI)
        apply (rule run)
       apply (rule r2)
      apply (rule r3)
     apply (rule flat)
    apply (rule order)
    done
qed

theorem word2pseu_longest_first_witness:
  "GSUB (tiny_font\<lparr>GSUB := Some empty_gsub\<rparr>) = Some empty_gsub
   \<and> map_of (features empty_gsub) ''liga_s2t'' = Some []
   \<and> sorted_wrt (\<lambda>a b. length (fst a) \<ge> length (fst b))
        [([''a'', ''b'', ''c''], ''X''), ([''a'', ''b''], ''Y'')]
   \<and> (\<exists>obj' table'.
         create_word2pseu_table (tiny_font\<lparr>GSUB := Some empty_gsub\<rparr>) ''liga_s2t''
           [([''a'', ''b'', ''c''], ''X''), ([''a'', ''b''], ''Y'')] = Inr obj'
         \<and> GSUB obj' = Some table'
         \<and> map_of (lookups table') ''word2pseu''
             = Some (Gsub_ligature [[\<lparr>lig_from = [''a'', ''b'', ''c''], lig_to = ''X''\<rparr>],
                                    [\<lparr>lig_from = [''a'', ''b''], lig_to = ''Y''\<rparr>]]))"
proof -
  have h1: "GSUB (tiny_font\<lparr>GSUB := Some empty_gsub\<rparr>) = Some empty_gsub" by simp
  have h2: "map_of (features empty_gsub) ''liga_s2t'' = Some []" by (simp add: empty_gsub_def)
  have h3: "sorted_wrt (\<lambda>a b. length (fst a) \<ge> length (fst b))
        [([''a'', ''b'', ''c''], ''X''), ([''a'', ''b''], ''Y'')]" by simp
  have run: "create_word2pseu_table (tiny_font\<lparr>GSUB := Some empty_gsub\<rparr>) ''liga_s2t''
           [([''a'', ''b'', ''c''], ''X''), ([''a'', ''b''], ''Y'')]
       = Inr (tiny_font\<lparr>GSUB := Some
           (empty_gsub\<lparr>features := [(''liga_s2t'', [''word2pseu''])],
              lookups := [(''word2pseu'',
                Gsub_ligature [[\<lparr>lig_from = [''a'', ''b'', ''c''], lig_to = ''X''\<rparr>],
                               [\<lparr>lig_from = [''a'', ''b''], lig_to = ''Y''\<rparr>]])],
              lookupOrder := [''word2pseu'']\<rparr>)\<rparr>)"
    by (simp add: create_word2pseu_table_def register_lookup_def grouper2_def grouper.simps
        SUBTABLE_MAX_COUNT_def empty_gsub_def)
  from word2pseu_longest_first [OF h1 h2 h3] h1 h2 h3 run show ?thesis by simp
qed

text \<open>
  C7. When pruning has gone through and the glyph count it leaves plus the number of
  word entries is above 65535, \<^verbatim>\<open>build_font\<close> ends in the failed assertion, whatever
  the entries, so before any placeholder glyph is inserted; \<^verbatim>\<open>save_font\<close> is not
  reached and nothing is written.
\<close>

theorem build_font_capacity_exceeded:
  assumes "remove_codepoints (load_font decoded) removed = Inr font1"
    and "clean_unused_glyphs todo font1 = Inr font2"
    and "get_glyph_count font2 + length entries_word > 65535"
  shows "build_font decoded removed todo entries_char entries_word modify_metadata
           = Inl AssertionError"
  using assms by (simp add: build_font_def MAX_GLYPH_COUNT_def)

theorem build_font_capacity_exceeded_witness:
  "remove_codepoints (load_font tiny_font) [] = Inr tiny_font
   \<and> clean_unused_glyphs [] tiny_font = Inr tiny_font
   \<and> get_glyph_count tiny_font + length (replicate 65535 ([97 :: int], [98 :: int])) > 65535
   \<and> build_font tiny_font [] [] [] (replicate 65535 ([97], [98])) Inr = Inl AssertionError"
proof -
  have l: "load_font tiny_font = tiny_font"
    by (simp add: load_font_def build_cmap_rev_def tiny_font_def)
  have h1: "remove_codepoints (load_font tiny_font) [] = Inr tiny_font"
    by (simp add: l)
  have h2: "clean_unused_glyphs [] tiny_font = Inr tiny_font"
    by (simp add: clean_unused_glyphs_def get_reachable_glyphs_def tiny_font_def)
  have h3: "get_glyph_count tiny_font + length (replicate 65535 ([97 :: int], [98 :: int])) > 65535"
    by (simp add: get_glyph_count_def tiny_font_def)
  from build_font_capacity_exceeded [OF h1 h2 h3, of "[]" Inr] h1 h2 h3 show ?thesis by simp
qed

section \<open>Properties of the reverse index and of codepoint removal\<close>


lemma defaultdict_get_delete:
  "defaultdict_get (AList.delete k d) k' = (if k' = k then [] else defaultdict_get d k')"
  by (simp add: defaultdict_get_def delete_conv')

lemma defaultdict_get_update:
  "defaultdict_get (AList.update k v d) k' = (if k' = k then v else defaultdict_get d k')"
  by (simp add: defaultdict_get_def update_conv')

lemma build_cmap_rev_loop_get:
  "defaultdict_get (build_cmap_rev_loop items acc) g =
     defaultdict_get acc g @ map fst (filter (\<lambda>item. snd item = g) items)"
proof (induction items arbitrary: acc)
  case Nil
  then show ?case by simp
next
  case (Cons item items)
  obtain c g' where item: "item = (c, g')" by (cases item)
  show ?case unfolding item
    by (simp add: Cons.IH defaultdict_get_update)
qed

lemma build_cmap_rev_get:
  "defaultdict_get (build_cmap_rev obj) g = map fst (filter (\<lambda>item. snd item = g) (cmap obj))"
proof -
  have "defaultdict_get ([] :: (glyph \<times> codepoint list) list) g = []"
    by (simp add: defaultdict_get_def)
  then show ?thesis by (simp add: build_cmap_rev_def build_cmap_rev_loop_get)
qed

lemma build_cmap_rev_index_ok:
  assumes "distinct (map fst (cmap obj))" and "cmap_rev obj = build_cmap_rev obj"
  shows "index_ok obj"
proof -
  have mem: "c \<in> set (defaultdict_get (cmap_rev obj) g) \<longleftrightarrow> map_of (cmap obj) c = Some g" for c g
  proof -
    have "c \<in> set (defaultdict_get (cmap_rev obj) g) \<longleftrightarrow> (c, g) \<in> set (cmap obj)"
      unfolding assms(2) build_cmap_rev_get by force
    also have "\<dots> \<longleftrightarrow> map_of (cmap obj) c = Some g"
      using assms(1) by simp
    finally show ?thesis .
  qed
  have dist: "distinct (defaultdict_get (cmap_rev obj) g)" for g
    unfolding assms(2) build_cmap_rev_get using assms(1) by (rule distinct_map_filter)
  from mem dist show ?thesis
    unfolding index_ok_def rev_index_inv_def by blast
qed


lemma map_result_Inl: "map_result f xs = Inl e \<Longrightarrow> \<exists>x\<in>set xs. f x = Inl e"
  by (induction xs) (auto split: sum.splits)

lemma remove_glyph_context_Inl: "remove_glyph_context g st = Inl e \<Longrightarrow> e = IndexError"
  by (auto simp: remove_glyph_context_def Let_def split: option.splits if_splits)

lemma remove_glyph_gpos_Inl: "remove_glyph_gpos g l = Inl e \<Longrightarrow> e = IndexError"
  by (cases l) (auto split: sum.splits dest!: map_result_Inl remove_glyph_context_Inl)

lemma remove_glyph_gpos_table_Inl: "remove_glyph_gpos_table g t = Inl e \<Longrightarrow> e = IndexError"
  by (auto simp: remove_glyph_gpos_table_def split: option.splits sum.splits
      dest!: map_result_Inl remove_glyph_gpos_Inl)

lemma remove_glyph_Inl: "remove_glyph obj g = Inl e \<Longrightarrow> e = IndexError"
  by (auto simp: remove_glyph_def Let_def split: sum.splits dest: remove_glyph_gpos_table_Inl)

lemma remove_glyph_cmap:
  "remove_glyph obj g = Inr obj' \<Longrightarrow> cmap obj' = cmap obj \<and> cmap_rev obj' = cmap_rev obj"
  by (auto simp: remove_glyph_def Let_def split: sum.splits)

lemma remove_glyph_index_ok: "remove_glyph obj g = Inr obj' \<Longrightarrow> index_ok obj \<Longrightarrow> index_ok obj'"
  by (drule remove_glyph_cmap) (simp add: index_ok_def rev_index_inv_def)



lemma distinct_singleton: "distinct xs \<Longrightarrow> set xs = {x} \<Longrightarrow> xs = [x]"
proof (cases xs)
  case Nil
  assume "set xs = {x}"
  with Nil show ?thesis by simp
next
  case (Cons y ys)
  assume d: "distinct xs" and s: "set xs = {x}"
  from s Cons have y: "y = x" by auto
  from d Cons have "y \<notin> set ys" by simp
  moreover from s Cons have "set ys \<subseteq> {x}" by auto
  ultimately have "ys = []" using y by (cases ys) auto
  with Cons y show ?thesis by simp
qed



lemma index_ok_mem:
  "index_ok obj \<Longrightarrow> c \<in> set (defaultdict_get (cmap_rev obj) g) \<longleftrightarrow> map_of (cmap obj) c = Some g"
  unfolding index_ok_def rev_index_inv_def by blast

lemma index_ok_distinct: "index_ok obj \<Longrightarrow> distinct (defaultdict_get (cmap_rev obj) g)"
  unfolding index_ok_def by blast

lemma only_item_iff:
  assumes "index_ok obj" and "map_of (cmap obj) c = Some g"
  shows "defaultdict_get (cmap_rev obj) g = [c] \<longleftrightarrow> (\<forall>c'. map_of (cmap obj) c' = Some g \<longrightarrow> c' = c)"
proof
  assume e: "defaultdict_get (cmap_rev obj) g = [c]"
  show "\<forall>c'. map_of (cmap obj) c' = Some g \<longrightarrow> c' = c"
  proof (intro allI impI)
    fix c' assume "map_of (cmap obj) c' = Some g"
    with index_ok_mem [OF assms(1), of c' g] have "c' \<in> set (defaultdict_get (cmap_rev obj) g)"
      by blast
    then show "c' = c" unfolding e by simp
  qed
next
  assume only: "\<forall>c'. map_of (cmap obj) c' = Some g \<longrightarrow> c' = c"
  have "set (defaultdict_get (cmap_rev obj) g) = {c}"
  proof (rule set_eqI)
    fix x
    from index_ok_mem [OF assms(1), of x g] only assms(2)
    show "x \<in> set (defaultdict_get (cmap_rev obj) g) \<longleftrightarrow> x \<in> {c}" by blast
  qed
  with index_ok_distinct [OF assms(1), of g]
  show "defaultdict_get (cmap_rev obj) g = [c]" by (rule distinct_singleton)
qed


lemma index_ok_disassociated:
  assumes ok: "index_ok obj" and c: "map_of (cmap obj) c = Some g"
    and m: "cmap obj1 = AList.delete c (cmap obj)"
    and r: "\<forall>h. defaultdict_get (cmap_rev obj1) h =
              (if h = g then remove1 c (defaultdict_get (cmap_rev obj) g)
               else defaultdict_get (cmap_rev obj) h)"
  shows "index_ok obj1"
proof -
  from ok have inv: "\<And>x h. map_of (cmap obj) x = Some h \<longleftrightarrow> x \<in> set (defaultdict_get (cmap_rev obj) h)"
    and dist: "\<And>h. distinct (defaultdict_get (cmap_rev obj) h)"
    by (simp_all add: index_ok_def rev_index_inv_def)
  have "map_of (cmap obj1) x = Some h \<longleftrightarrow> x \<in> set (defaultdict_get (cmap_rev obj1) h)" for x h
  proof (cases "h = g")
    case True
    have "map_of (cmap obj1) x = Some g \<longleftrightarrow> x \<noteq> c \<and> map_of (cmap obj) x = Some g"
      by (simp add: m delete_conv')
    also have "\<dots> \<longleftrightarrow> x \<in> set (remove1 c (defaultdict_get (cmap_rev obj) g))"
      using dist [of g] inv [of x g] by auto
    finally show ?thesis using True r by simp
  next
    case False
    have "map_of (cmap obj1) x = Some h \<longleftrightarrow> x \<noteq> c \<and> map_of (cmap obj) x = Some h"
      by (simp add: m delete_conv')
    also have "\<dots> \<longleftrightarrow> map_of (cmap obj) x = Some h"
      using c False by auto
    finally show ?thesis using False r inv [of x h] by simp
  qed
  moreover have "distinct (defaultdict_get (cmap_rev obj1) h)" for h
    using r dist by (simp add: distinct_remove1)
  ultimately show ?thesis by (simp add: index_ok_def rev_index_inv_def)
qed


lemma disassociate_ok:
  assumes ok: "index_ok obj" and c: "map_of (cmap obj) c = Some g"
  shows "\<exists>obj1. disassociate_codepoint_and_glyph_name obj c g
                  = Inr (defaultdict_get (cmap_rev obj) g = [c], obj1)
           \<and> cmap obj1 = AList.delete c (cmap obj)
           \<and> (\<forall>h. defaultdict_get (cmap_rev obj1) h =
                    (if h = g then remove1 c (defaultdict_get (cmap_rev obj) g)
                     else defaultdict_get (cmap_rev obj) h))
           \<and> glyph_order obj1 = glyph_order obj \<and> glyf obj1 = glyf obj
           \<and> GSUB obj1 = GSUB obj \<and> GPOS obj1 = GPOS obj \<and> BASE obj1 = BASE obj"
proof -
  from ok c have mem: "c \<in> set (defaultdict_get (cmap_rev obj) g)"
    by (simp add: index_ok_def rev_index_inv_def)
  show ?thesis
  proof (cases "defaultdict_get (cmap_rev obj) g = [c]")
    case True
    let ?obj1 = "obj\<lparr>cmap := AList.delete c (cmap obj), cmap_rev := AList.delete g (cmap_rev obj)\<rparr>"
    have "disassociate_codepoint_and_glyph_name obj c g = Inr (True, ?obj1)"
      using c True by (simp add: disassociate_codepoint_and_glyph_name_def)
    moreover have "\<forall>h. defaultdict_get (cmap_rev ?obj1) h =
                    (if h = g then remove1 c (defaultdict_get (cmap_rev obj) g)
                     else defaultdict_get (cmap_rev obj) h)"
      using True by (simp add: defaultdict_get_delete)
    ultimately show ?thesis using True by (intro exI [of _ ?obj1]) simp
  next
    case False
    let ?obj1 = "obj\<lparr>cmap := AList.delete c (cmap obj),
                     cmap_rev := AList.update g (remove1 c (defaultdict_get (cmap_rev obj) g)) (cmap_rev obj)\<rparr>"
    have "disassociate_codepoint_and_glyph_name obj c g = Inr (False, ?obj1)"
      using c False mem by (simp add: disassociate_codepoint_and_glyph_name_def)
    moreover have "\<forall>h. defaultdict_get (cmap_rev ?obj1) h =
                    (if h = g then remove1 c (defaultdict_get (cmap_rev obj) g)
                     else defaultdict_get (cmap_rev obj) h)"
      by (simp add: defaultdict_get_update)
    ultimately show ?thesis using False by (intro exI [of _ ?obj1]) simp
  qed
qed



lemma remove_codepoint_absent:
  "map_of (cmap obj) (py_str c) = None \<or> map_of (cmap obj) (py_str c) = Some [] \<Longrightarrow>
     remove_codepoint obj c = Inr obj"
  by (auto simp: remove_codepoint_def)

lemma remove_codepoint_present:
  assumes ok: "index_ok obj" and c: "map_of (cmap obj) (py_str c) = Some g" and g: "g \<noteq> []"
  shows "\<exists>obj1. cmap obj1 = AList.delete (py_str c) (cmap obj)
           \<and> (\<forall>h. defaultdict_get (cmap_rev obj1) h =
                    (if h = g then remove1 (py_str c) (defaultdict_get (cmap_rev obj) g)
                     else defaultdict_get (cmap_rev obj) h))
           \<and> glyph_order obj1 = glyph_order obj \<and> glyf obj1 = glyf obj
           \<and> GSUB obj1 = GSUB obj \<and> GPOS obj1 = GPOS obj \<and> BASE obj1 = BASE obj
           \<and> index_ok obj1
           \<and> remove_codepoint obj c =
               (if (\<forall>c'. map_of (cmap obj) c' = Some g \<longrightarrow> c' = py_str c)
                then remove_glyph obj1 g else Inr obj1)"
proof -
  from disassociate_ok [OF ok c] obtain obj1 where
    d: "disassociate_codepoint_and_glyph_name obj (py_str c) g
          = Inr (defaultdict_get (cmap_rev obj) g = [py_str c], obj1)"
    and m: "cmap obj1 = AList.delete (py_str c) (cmap obj)"
    and r: "\<forall>h. defaultdict_get (cmap_rev obj1) h =
                    (if h = g then remove1 (py_str c) (defaultdict_get (cmap_rev obj) g)
                     else defaultdict_get (cmap_rev obj) h)"
    and rest: "glyph_order obj1 = glyph_order obj \<and> glyf obj1 = glyf obj
           \<and> GSUB obj1 = GSUB obj \<and> GPOS obj1 = GPOS obj \<and> BASE obj1 = BASE obj"
    by blast
  have ok1: "index_ok obj1" by (rule index_ok_disassociated [OF ok c m r])
  have run: "remove_codepoint obj c =
               (if defaultdict_get (cmap_rev obj) g = [py_str c]
                then remove_glyph obj1 g else Inr obj1)"
    using c g d by (simp add: remove_codepoint_def)
  have "remove_codepoint obj c =
               (if (\<forall>c'. map_of (cmap obj) c' = Some g \<longrightarrow> c' = py_str c)
                then remove_glyph obj1 g else Inr obj1)"
    unfolding run only_item_iff [OF ok c] ..
  with m r rest ok1 show ?thesis by blast
qed

lemma remove_codepoint_ok:
  assumes ok: "index_ok obj"
  shows "case remove_codepoint obj c of Inr obj' \<Rightarrow> index_ok obj' | Inl e \<Rightarrow> e = IndexError"
proof (cases "map_of (cmap obj) (py_str c) = None \<or> map_of (cmap obj) (py_str c) = Some []")
  case True
  from remove_codepoint_absent [OF this] ok show ?thesis by simp
next
  case False
  then obtain g where c: "map_of (cmap obj) (py_str c) = Some g" and g: "g \<noteq> []" by auto
  from remove_codepoint_present [OF ok c g] obtain obj1 where ok1: "index_ok obj1"
    and run: "remove_codepoint obj c =
               (if (\<forall>c'. map_of (cmap obj) c' = Some g \<longrightarrow> c' = py_str c)
                then remove_glyph obj1 g else Inr obj1)"
    by blast
  show ?thesis
  proof (cases "\<forall>c'. map_of (cmap obj) c' = Some g \<longrightarrow> c' = py_str c")
    case True
    with run have e: "remove_codepoint obj c = remove_glyph obj1 g" by simp
    show ?thesis
    proof (cases "remove_glyph obj1 g")
      case (Inl e')
      with e remove_glyph_Inl [OF Inl] show ?thesis by simp
    next
      case (Inr obj')
      with e remove_glyph_index_ok [OF Inr ok1] show ?thesis by simp
    qed
  next
    case False
    with run ok1 show ?thesis by simp
  qed
qed

lemma remove_codepoints_ok:
  "index_ok obj \<Longrightarrow>
     (case remove_codepoints obj cs of Inr obj' \<Rightarrow> index_ok obj' | Inl e \<Rightarrow> e = IndexError)"
proof (induction cs arbitrary: obj)
  case Nil
  then show ?case by simp
next
  case (Cons c cs)
  from remove_codepoint_ok [OF Cons.prems, of c] show ?case
    by (cases "remove_codepoint obj c") (simp_all add: Cons.IH)
qed

lemma apply_removals_ok:
  "index_ok obj \<Longrightarrow>
     (case apply_removals obj rs of Inr obj' \<Rightarrow> index_ok obj' | Inl e \<Rightarrow> e = IndexError)"
proof (induction rs arbitrary: obj)
  case Nil
  then show ?case by simp
next
  case (Cons r rs)
  have step: "case apply_removal obj r of Inr obj' \<Rightarrow> index_ok obj' | Inl e \<Rightarrow> e = IndexError"
    using remove_codepoint_ok [OF Cons.prems] remove_codepoints_ok [OF Cons.prems]
    by (cases r) simp_all
  then show ?case
    by (cases "apply_removal obj r") (simp_all add: Cons.IH)
qed

lemma py_str_97: "py_str 97 = ''97''" "py_str 98 = ''98''" "py_str 99 = ''99''" "py_str 100 = ''100''"
  by (simp_all add: py_str_def str_nat.simps digit_char_def)

lemma load_sample: "load_font sample_font =
  \<lparr>cmap = [(''97'', ''a''), (''98'', ''a''), (''99'', ''b'')],
      cmap_rev = [(''a'', [''97'', ''98'']), (''b'', [''99''])],
      glyph_order = [''.notdef'', ''a'', ''b''],
      glyf = [(''.notdef'', []), (''a'', []), (''b'', [])],
      GSUB = Some \<lparr>lookups = [(''liga'', Gsub_ligature [[\<lparr>lig_from = [''a'', ''b''], lig_to = ''a''\<rparr>]]),
                              (''sing'', Gsub_single [[(''a'', ''b'')]])],
                   features = [], languages = [], lookupOrder = [''liga'', ''sing'']\<rparr>,
      GPOS = None, BASE = None\<rparr>"
  by (simp add: load_font_def build_cmap_rev_def sample_font_def defaultdict_get_def)

lemma load_font_rev: "cmap_rev (load_font decoded) = build_cmap_rev (load_font decoded)"
  by (simp add: load_font_def build_cmap_rev_def)

lemma load_sample_ok: "index_ok (load_font sample_font)"
proof (rule build_cmap_rev_index_ok [OF _ load_font_rev])
  show "distinct (map fst (cmap (load_font sample_font)))" by (simp add: load_sample)
qed

text \<open>
  C4. Starting from a font whose \<^verbatim>\<open>cmap\<close> has distinct keys (it is a dict) and whose
  \<^verbatim>\<open>cmap_rev\<close> was built by \<^verbatim>\<open>build_cmap_rev\<close>, any sequence of \<^verbatim>\<open>remove_codepoint\<close> and
  \<^verbatim>\<open>remove_codepoints\<close> calls that returns leaves a font in which \<^verbatim>\<open>cmap\<close> maps \<open>c\<close> to
  \<open>g\<close> exactly when \<open>c\<close> is in the reverse entry of \<open>g\<close>, and no codepoint is in the
  reverse entries of two glyphs. The sequence can only fail with the IndexError of
  \<^verbatim>\<open>remove_glyph\<close>, never in the index itself.
\<close>

theorem reverse_index_invariant:
  assumes "distinct (map fst (cmap obj))" and "cmap_rev obj = build_cmap_rev obj"
  shows "case apply_removals obj rs of
           Inr obj' \<Rightarrow>
             (\<forall>c g. map_of (cmap obj') c = Some g \<longleftrightarrow> c \<in> set (defaultdict_get (cmap_rev obj') g))
             \<and> (\<forall>c g g'. c \<in> set (defaultdict_get (cmap_rev obj') g)
                   \<and> c \<in> set (defaultdict_get (cmap_rev obj') g') \<longrightarrow> g = g')
         | Inl e \<Rightarrow> e = IndexError"
proof (cases "apply_removals obj rs")
  case (Inl e)
  with apply_removals_ok [OF build_cmap_rev_index_ok [OF assms], of rs] show ?thesis by simp
next
  case (Inr obj')
  with apply_removals_ok [OF build_cmap_rev_index_ok [OF assms], of rs] have ok: "index_ok obj'"
    by simp
  then have inv: "\<forall>c g. map_of (cmap obj') c = Some g \<longleftrightarrow> c \<in> set (defaultdict_get (cmap_rev obj') g)"
    unfolding index_ok_def rev_index_inv_def by blast
  have "\<forall>c g g'. c \<in> set (defaultdict_get (cmap_rev obj') g)
          \<and> c \<in> set (defaultdict_get (cmap_rev obj') g') \<longrightarrow> g = g'"
  proof (intro allI impI)
    fix c g g'
    assume "c \<in> set (defaultdict_get (cmap_rev obj') g) \<and> c \<in> set (defaultdict_get (cmap_rev obj') g')"
    with index_ok_mem [OF ok] have "map_of (cmap obj') c = Some g" and "map_of (cmap obj') c = Some g'"
      by blast+
    then show "g = g'" by simp
  qed
  with inv Inr show ?thesis by simp
qed

theorem reverse_index_invariant_witness:
  "distinct (map fst (cmap (load_font sample_font)))
   \<and> cmap_rev (load_font sample_font) = build_cmap_rev (load_font sample_font)
   \<and> (\<exists>obj'. apply_removals (load_font sample_font)
                 [Remove_codepoint 97, Remove_codepoints [99, 100]] = Inr obj'
         \<and> cmap obj' = [(''98'', ''a'')] \<and> cmap_rev obj' = [(''a'', [''98''])]
         \<and> glyph_order obj' = [''.notdef'', ''a'']
         \<and> rev_index_inv obj')"
proof -
  let ?res = "\<lparr>cmap = [(''98'', ''a'')],
      cmap_rev = [(''a'', [''98''])],
      glyph_order = [''.notdef'', ''a''],
      glyf = [(''.notdef'', []), (''a'', [])],
      GSUB = Some \<lparr>lookups = [(''liga'', Gsub_ligature [[]]),
                              (''sing'', Gsub_single [[]])],
                   features = [], languages = [], lookupOrder = [''liga'', ''sing'']\<rparr>,
      GPOS = None, BASE = None\<rparr>"
  have h1: "distinct (map fst (cmap (load_font sample_font)))" by (simp add: load_sample)
  have h2: "cmap_rev (load_font sample_font) = build_cmap_rev (load_font sample_font)"
    by (rule load_font_rev)
  have run: "apply_removals (load_font sample_font)
               [Remove_codepoint 97, Remove_codepoints [99, 100]] = Inr ?res"
    unfolding load_sample
    by (simp add: py_str_97 remove_codepoint_def
        disassociate_codepoint_and_glyph_name_def defaultdict_get_def remove_glyph_def
        remove_glyph_gpos_table_def Let_def)
  from reverse_index_invariant [OF h1 h2, of "[Remove_codepoint 97, Remove_codepoints [99, 100]]"]
  have "rev_index_inv ?res" unfolding run rev_index_inv_def by simp
  with h1 h2 run show ?thesis by simp
qed

text \<open>
  C8, as the code has it. In a font that satisfies the invariant, \<^verbatim>\<open>remove_codepoint\<close>
  leaves the font unchanged when the codepoint is absent from \<^verbatim>\<open>cmap\<close> or mapped to the
  empty glyph name (the guard \<^verbatim>\<open>if not glyph_name\<close>). Otherwise it takes the codepoint
  out of \<^verbatim>\<open>cmap\<close> and out of the reverse entry of its glyph, touching nothing else, and
  then runs \<^verbatim>\<open>remove_glyph\<close> on that glyph exactly when no other codepoint was mapped to
  the glyph.
\<close>

theorem remove_codepoint_cases:
  assumes "index_ok obj"
  shows "(map_of (cmap obj) (py_str c) = None \<or> map_of (cmap obj) (py_str c) = Some []
            \<longrightarrow> remove_codepoint obj c = Inr obj)
       \<and> (\<forall>g. map_of (cmap obj) (py_str c) = Some g \<and> g \<noteq> [] \<longrightarrow>
             (\<exists>obj1. cmap obj1 = AList.delete (py_str c) (cmap obj)
                \<and> map_of (cmap obj1) (py_str c) = None
                \<and> (\<forall>h. defaultdict_get (cmap_rev obj1) h =
                      (if h = g then remove1 (py_str c) (defaultdict_get (cmap_rev obj) g)
                       else defaultdict_get (cmap_rev obj) h))
                \<and> py_str c \<notin> set (defaultdict_get (cmap_rev obj1) g)
                \<and> glyph_order obj1 = glyph_order obj \<and> glyf obj1 = glyf obj
                \<and> GSUB obj1 = GSUB obj \<and> GPOS obj1 = GPOS obj \<and> BASE obj1 = BASE obj
                \<and> rev_index_inv obj1
                \<and> remove_codepoint obj c =
                    (if (\<forall>c'. map_of (cmap obj) c' = Some g \<longrightarrow> c' = py_str c)
                     then remove_glyph obj1 g else Inr obj1)))"
proof (intro conjI allI impI)
  assume "map_of (cmap obj) (py_str c) = None \<or> map_of (cmap obj) (py_str c) = Some []"
  then show "remove_codepoint obj c = Inr obj" by (rule remove_codepoint_absent)
next
  fix g
  assume h: "map_of (cmap obj) (py_str c) = Some g \<and> g \<noteq> []"
  then have c: "map_of (cmap obj) (py_str c) = Some g" and g: "g \<noteq> []" by blast+
  from remove_codepoint_present [OF assms c g] obtain obj1 where
    m: "cmap obj1 = AList.delete (py_str c) (cmap obj)"
    and r: "\<forall>h. defaultdict_get (cmap_rev obj1) h =
                    (if h = g then remove1 (py_str c) (defaultdict_get (cmap_rev obj) g)
                     else defaultdict_get (cmap_rev obj) h)"
    and rest: "glyph_order obj1 = glyph_order obj \<and> glyf obj1 = glyf obj
           \<and> GSUB obj1 = GSUB obj \<and> GPOS obj1 = GPOS obj \<and> BASE obj1 = BASE obj"
    and ok1: "index_ok obj1"
    and run: "remove_codepoint obj c =
               (if (\<forall>c'. map_of (cmap obj) c' = Some g \<longrightarrow> c' = py_str c)
                then remove_glyph obj1 g else Inr obj1)"
    by blast
  have gone: "map_of (cmap obj1) (py_str c) = None" by (simp add: m delete_conv')
  with index_ok_mem [OF ok1, of "py_str c" g]
  have out: "py_str c \<notin> set (defaultdict_get (cmap_rev obj1) g)" by simp
  from ok1 have inv1: "rev_index_inv obj1" by (simp add: index_ok_def)
  show "\<exists>obj1. cmap obj1 = AList.delete (py_str c) (cmap obj)
                \<and> map_of (cmap obj1) (py_str c) = None
                \<and> (\<forall>h. defaultdict_get (cmap_rev obj1) h =
                      (if h = g then remove1 (py_str c) (defaultdict_get (cmap_rev obj) g)
                       else defaultdict_get (cmap_rev obj) h))
                \<and> py_str c \<notin> set (defaultdict_get (cmap_rev obj1) g)
                \<and> glyph_order obj1 = glyph_order obj \<and> glyf obj1 = glyf obj
                \<and> GSUB obj1 = GSUB obj \<and> GPOS obj1 = GPOS obj \<and> BASE obj1 = BASE obj
                \<and> rev_index_inv obj1
                \<and> remove_codepoint obj c =
                    (if (\<forall>c'. map_of (cmap obj) c' = Some g \<longrightarrow> c' = py_str c)
                     then remove_glyph obj1 g else Inr obj1)"
    apply (rule exI [of _ obj1])
    apply (intro conjI)
              apply (rule m)
             apply (rule gone)
            apply (rule r)
           apply (rule out)
          apply (simp_all add: rest inv1 run)
    done
qed

theorem remove_codepoint_cases_witness:
  "index_ok (load_font sample_font)
   \<and> remove_codepoint (load_font sample_font) 100 = Inr (load_font sample_font)
   \<and> (\<exists>obj'. remove_codepoint (load_font sample_font) 97 = Inr obj'
         \<and> cmap obj' = [(''98'', ''a''), (''99'', ''b'')]
         \<and> cmap_rev obj' = [(''a'', [''98'']), (''b'', [''99''])]
         \<and> glyph_order obj' = [''.notdef'', ''a'', ''b''])
   \<and> (\<exists>obj'. remove_codepoint (load_font sample_font) 99 = Inr obj'
         \<and> cmap obj' = [(''97'', ''a''), (''98'', ''a'')]
         \<and> cmap_rev obj' = [(''a'', [''97'', ''98''])]
         \<and> glyph_order obj' = [''.notdef'', ''a''])"
proof -
  have absent: "map_of (cmap (load_font sample_font)) (py_str 100) = None"
    by (simp add: load_sample py_str_97)
  from remove_codepoint_cases [OF load_sample_ok, of 100] absent
  have r100: "remove_codepoint (load_font sample_font) 100 = Inr (load_font sample_font)"
    by blast
  have r97: "\<exists>obj'. remove_codepoint (load_font sample_font) 97 = Inr obj'
         \<and> cmap obj' = [(''98'', ''a''), (''99'', ''b'')]
         \<and> cmap_rev obj' = [(''a'', [''98'']), (''b'', [''99''])]
         \<and> glyph_order obj' = [''.notdef'', ''a'', ''b'']"
    unfolding load_sample
    by (simp add: py_str_97 remove_codepoint_def
        disassociate_codepoint_and_glyph_name_def defaultdict_get_def Let_def)
  have r99: "\<exists>obj'. remove_codepoint (load_font sample_font) 99 = Inr obj'
         \<and> cmap obj' = [(''97'', ''a''), (''98'', ''a'')]
         \<and> cmap_rev obj' = [(''a'', [''97'', ''98''])]
         \<and> glyph_order obj' = [''.notdef'', ''a'']"
    unfolding load_sample
    by (simp add: py_str_97 remove_codepoint_def
        disassociate_codepoint_and_glyph_name_def defaultdict_get_def remove_glyph_def
        remove_glyph_gpos_table_def Let_def)
  from load_sample_ok r100 r97 r99 show ?thesis by blast
qed

theorem remove_codepoint_empty_name_counterexample:
  "rev_index_inv empty_name_font
   \<and> map_of (cmap empty_name_font) (py_str 65) = Some []
   \<and> remove_codepoint empty_name_font 65 = Inr empty_name_font"
proof -
  have s: "py_str 65 = ''65''" by (simp add: py_str_def str_nat.simps digit_char_def)
  have "rev_index_inv empty_name_font"
    by (auto simp: rev_index_inv_def empty_name_font_def defaultdict_get_def split: if_splits)
  moreover have "map_of (cmap empty_name_font) (py_str 65) = Some []"
    by (simp add: s empty_name_font_def)
  ultimately show ?thesis by (simp add: remove_codepoint_def)
qed

section \<open>Properties of the reachability analysis and of pruning\<close>


lemma reach_lookup_eq:
  "reach_lookup g l acc =
     (if supported l then Inr (acc \<union> lookup_targets l g) else Inl NotImplementedError)"
  by (cases l) (auto simp: image_iff)

lemma reach_lookups_eq:
  "reach_lookups g ls acc =
     (if \<forall>l\<in>set ls. supported l then Inr (acc \<union> \<Union> ((\<lambda>l. lookup_targets l g) ` set ls))
      else Inl NotImplementedError)"
proof (induction ls arbitrary: acc)
  case Nil
  then show ?case by simp
next
  case (Cons l ls)
  show ?case
  proof (cases "supported l")
    case True
    then show ?thesis by (simp add: reach_lookup_eq Cons.IH Un_assoc)
  next
    case False
    then show ?thesis by (simp add: reach_lookup_eq)
  qed
qed

lemma reach_glyphs_eq:
  assumes "GSUB obj = Some table" and "\<forall>l\<in>snd ` set (lookups table). supported l"
  shows "reach_glyphs obj gs acc = Inr (acc \<union> set gs \<union> \<Union> (font_targets obj ` set gs))"
proof (induction gs arbitrary: acc)
  case Nil
  then show ?case by simp
next
  case (Cons g gs)
  have t: "font_targets obj g = \<Union> ((\<lambda>l. lookup_targets l g) ` snd ` set (lookups table))"
    by (simp add: font_targets_def assms(1))
  have "reach_lookups g (map snd (lookups table)) (insert g acc)
          = Inr (insert g acc \<union> font_targets obj g)"
    using assms(2) by (simp add: reach_lookups_eq t)
  then have "reach_glyphs obj (g # gs) acc
          = reach_glyphs obj gs (insert g acc \<union> font_targets obj g)"
    by (simp add: assms(1))
  also have "\<dots> = Inr ((insert g acc \<union> font_targets obj g) \<union> set gs
                        \<union> \<Union> (font_targets obj ` set gs))"
    by (rule Cons.IH)
  also have "(insert g acc \<union> font_targets obj g) \<union> set gs \<union> \<Union> (font_targets obj ` set gs)
          = acc \<union> set (g # gs) \<union> \<Union> (font_targets obj ` set (g # gs))"
    by auto
  finally show ?case .
qed

lemma reach_glyphs_unsupported:
  assumes "GSUB obj = Some table" and "\<not> (\<forall>l\<in>snd ` set (lookups table). supported l)"
    and "gs \<noteq> []"
  shows "reach_glyphs obj gs acc = Inl NotImplementedError"
proof -
  from assms(3) obtain g rest where gs: "gs = g # rest" by (cases gs) auto
  from assms(2) have "\<not> (\<forall>l\<in>set (map snd (lookups table)). supported l)" by simp
  then have "reach_lookups g (map snd (lookups table)) (insert g acc) = Inl NotImplementedError"
    by (simp only: reach_lookups_eq if_False)
  then show ?thesis unfolding gs by (simp add: assms(1))
qed

lemma get_reachable_glyphs_eq:
  assumes "GSUB obj = Some table" and "\<forall>l\<in>snd ` set (lookups table). supported l"
  shows "get_reachable_glyphs obj =
           Inr ({''.notdef'', ''.null''} \<union> snd ` set (cmap obj)
                  \<union> \<Union> (font_targets obj ` snd ` set (cmap obj)))"
  unfolding get_reachable_glyphs_def reach_glyphs_eq [OF assms] by simp

lemma reach_glyphs_supset: "reach_glyphs obj gs acc = Inr R \<Longrightarrow> acc \<union> set gs \<subseteq> R"
proof (induction gs arbitrary: acc)
  case Nil
  then show ?case by simp
next
  case (Cons g gs)
  from Cons.prems obtain table acc' where t: "GSUB obj = Some table"
    and l: "reach_lookups g (map snd (lookups table)) (insert g acc) = Inr acc'"
    and r: "reach_glyphs obj gs acc' = Inr R"
    by (auto split: option.splits sum.splits)
  from l have "insert g acc \<subseteq> acc'"
    by (auto simp: reach_lookups_eq split: if_splits)
  with Cons.IH [OF r] show ?case by auto
qed

lemma get_reachable_glyphs_cmap:
  "get_reachable_glyphs obj = Inr R \<Longrightarrow> snd ` set (cmap obj) \<subseteq> R"
  unfolding get_reachable_glyphs_def by (drule reach_glyphs_supset) auto



text \<open>
  C1, as the code has it. For a font whose GSUB lookups are all of type
  \<^verbatim>\<open>gsub_single\<close>, \<^verbatim>\<open>gsub_alternate\<close> or \<^verbatim>\<open>gsub_ligature\<close>, \<^verbatim>\<open>get_reachable_glyphs\<close> returns
  \<^verbatim>\<open>.notdef\<close> and \<^verbatim>\<open>.null\<close>, the glyphs targeted by \<^verbatim>\<open>cmap\<close> and the glyphs one
  substitution step away from a glyph targeted by \<^verbatim>\<open>cmap\<close>, and nothing else.
\<close>

theorem reachable_one_step:
  assumes "GSUB obj = Some table" and "\<forall>l\<in>snd ` set (lookups table). supported l"
  shows "get_reachable_glyphs obj =
           Inr ({''.notdef'', ''.null''} \<union> snd ` set (cmap obj)
                  \<union> \<Union> (font_targets obj ` snd ` set (cmap obj)))"
  using assms by (rule get_reachable_glyphs_eq)

lemma chain_font_targets:
  "font_targets chain_font ''a'' = {''b''}" "font_targets chain_font ''b'' = {''c''}"
  by (auto simp: font_targets_def chain_font_def image_iff)

theorem reachable_one_step_witness:
  "GSUB chain_font = Some \<lparr>lookups = [(''sing'', Gsub_single [[(''a'', ''b''), (''b'', ''c'')]])],
                            features = [], languages = [], lookupOrder = [''sing'']\<rparr>
   \<and> supported (Gsub_single [[(''a'', ''b''), (''b'', ''c'')]])
   \<and> get_reachable_glyphs chain_font = Inr {''.notdef'', ''.null'', ''a'', ''b''}"
proof -
  have h1: "GSUB chain_font = Some \<lparr>lookups = [(''sing'', Gsub_single [[(''a'', ''b''), (''b'', ''c'')]])],
                            features = [], languages = [], lookupOrder = [''sing'']\<rparr>"
    by (simp add: chain_font_def)
  have h2: "\<forall>l\<in>snd ` set (lookups \<lparr>lookups = [(''sing'', Gsub_single [[(''a'', ''b''), (''b'', ''c'')]])],
                            features = [], languages = [], lookupOrder = [''sing'']\<rparr>). supported l"
    by simp
  have c: "snd ` set (cmap chain_font) = {''a''}" by (simp add: chain_font_def)
  from reachable_one_step [OF h1 h2]
  have "get_reachable_glyphs chain_font = Inr {''.notdef'', ''.null'', ''a'', ''b''}"
    unfolding c by (simp add: chain_font_targets insert_commute)
  with h1 show ?thesis by simp
qed

theorem reachable_not_closed_counterexample:
  "get_reachable_glyphs chain_font = Inr {''.notdef'', ''.null'', ''a'', ''b''}
   \<and> ''c'' \<in> font_targets chain_font ''b''
   \<and> ''c'' \<notin> {''.notdef'', ''.null'', ''a'', ''b''}"
proof -
  have "get_reachable_glyphs chain_font = Inr {''.notdef'', ''.null'', ''a'', ''b''}"
    by (auto simp: get_reachable_glyphs_def chain_font_def)
  then show ?thesis by (simp add: chain_font_targets)
qed



lemma rev_inv_no_codepoints:
  assumes "rev_index_inv obj" and "g \<notin> snd ` set (cmap obj)"
  shows "defaultdict_get (cmap_rev obj) g = []"
proof (rule ccontr)
  assume "defaultdict_get (cmap_rev obj) g \<noteq> []"
  then obtain c where "c \<in> set (defaultdict_get (cmap_rev obj) g)"
    by (cases "defaultdict_get (cmap_rev obj) g") auto
  with assms(1) have "map_of (cmap obj) c = Some g"
    unfolding rev_index_inv_def by blast
  then have "(c, g) \<in> set (cmap obj)" by (rule map_of_SomeD)
  then have "g \<in> snd ` set (cmap obj)" by force
  with assms(2) show False by simp
qed

lemma remove_associated_unmapped:
  assumes "rev_index_inv obj" and "g \<notin> snd ` set (cmap obj)"
  shows "\<exists>obj1. remove_associated_codepoints_of_glyph obj g = Inr obj1
           \<and> cmap obj1 = cmap obj \<and> rev_index_inv obj1
           \<and> glyph_order obj1 = glyph_order obj \<and> glyf obj1 = glyf obj
           \<and> GSUB obj1 = GSUB obj \<and> GPOS obj1 = GPOS obj \<and> BASE obj1 = BASE obj"
proof -
  from rev_inv_no_codepoints [OF assms] have e: "defaultdict_get (cmap_rev obj) g = []" .
  let ?obj1 = "obj\<lparr>cmap := cmap obj, cmap_rev := AList.delete g (cmap_rev obj)\<rparr>"
  have run: "remove_associated_codepoints_of_glyph obj g = Inr ?obj1"
    by (simp add: remove_associated_codepoints_of_glyph_def e)
  have "defaultdict_get (cmap_rev ?obj1) h = defaultdict_get (cmap_rev obj) h" for h
    using e by (simp add: defaultdict_get_delete)
  with assms(1) have "rev_index_inv ?obj1"
    unfolding rev_index_inv_def by simp
  with run show ?thesis by (intro exI [of _ ?obj1]) simp
qed

lemma clean_loop_cmap:
  "rev_index_inv obj \<Longrightarrow> set todo \<inter> snd ` set (cmap obj) = {} \<Longrightarrow>
     (case clean_loop obj todo of
        Inr obj' \<Rightarrow> cmap obj' = cmap obj \<and> rev_index_inv obj'
      | Inl e \<Rightarrow> e = IndexError)"
proof (induction todo arbitrary: obj)
  case Nil
  then show ?case by simp
next
  case (Cons g todo)
  from Cons.prems(2) have g: "g \<notin> snd ` set (cmap obj)" and rest: "set todo \<inter> snd ` set (cmap obj) = {}"
    by auto
  from remove_associated_unmapped [OF Cons.prems(1) g] obtain obj1 where
    r1: "remove_associated_codepoints_of_glyph obj g = Inr obj1"
    and c1: "cmap obj1 = cmap obj" and i1: "rev_index_inv obj1"
    by blast
  show ?case
  proof (cases "remove_glyph obj1 g")
    case (Inl e)
    with r1 remove_glyph_Inl [OF Inl] show ?thesis by simp
  next
    case (Inr obj2)
    from remove_glyph_cmap [OF Inr] c1 i1 have c2: "cmap obj2 = cmap obj" and i2: "rev_index_inv obj2"
      by (simp_all add: rev_index_inv_def)
    from rest c2 have "set todo \<inter> snd ` set (cmap obj2) = {}" by simp
    from Cons.IH [OF i2 this] r1 Inr c2 show ?thesis
      by (cases "clean_loop obj2 todo") simp_all
  qed
qed

text \<open>
  C10. In a font that satisfies the reverse-index invariant, every glyph that
  \<^verbatim>\<open>clean_unused_glyphs\<close> removes has no codepoint in its reverse entry, and the call
  leaves \<^verbatim>\<open>cmap\<close> as it was; the only way it can fail after the reachability analysis
  is the IndexError of \<^verbatim>\<open>remove_glyph\<close>.
\<close>

theorem clean_unused_glyphs_keeps_cmap:
  assumes "rev_index_inv obj"
    and "get_reachable_glyphs obj = Inr reachable"
    and "iterates todo (set (glyph_order obj) - reachable)"
  shows "(\<forall>g\<in>set todo. defaultdict_get (cmap_rev obj) g = [])
       \<and> (case clean_unused_glyphs todo obj of
            Inr obj' \<Rightarrow> cmap obj' = cmap obj
          | Inl e \<Rightarrow> e = IndexError)"
proof -
  from get_reachable_glyphs_cmap [OF assms(2)] have sub: "snd ` set (cmap obj) \<subseteq> reachable" .
  from assms(3) have "set todo \<inter> reachable = {}" by (auto simp: iterates_def)
  with sub have disj: "set todo \<inter> snd ` set (cmap obj) = {}" by auto
  have "\<forall>g\<in>set todo. defaultdict_get (cmap_rev obj) g = []"
  proof
    fix g assume "g \<in> set todo"
    with disj have "g \<notin> snd ` set (cmap obj)" by auto
    with assms(1) show "defaultdict_get (cmap_rev obj) g = []" by (rule rev_inv_no_codepoints)
  qed
  moreover have "case clean_unused_glyphs todo obj of
            Inr obj' \<Rightarrow> cmap obj' = cmap obj
          | Inl e \<Rightarrow> e = IndexError"
    using clean_loop_cmap [OF assms(1) disj] assms(2)
    by (cases "clean_loop obj todo") (simp_all add: clean_unused_glyphs_def)
  ultimately show ?thesis by blast
qed



lemma supported_remove_glyph_gsub: "supported (remove_glyph_gsub u l) = supported l"
  by (cases l) simp_all

lemma lig_ok_remove_glyph_gsub: "lig_ok V U l \<Longrightarrow> lig_ok V U (remove_glyph_gsub u l)"
  by (cases l) auto

lemma targets_single:
  assumes "g \<noteq> u" and "u \<notin> lookup_targets (Gsub_single sts) g"
  shows "lookup_targets (remove_glyph_gsub u (Gsub_single sts)) g = lookup_targets (Gsub_single sts) g"
proof -
  have "{kv \<in> set (concat (map (\<lambda>subtable. filter (\<lambda>(key, v). v \<noteq> u) (AList.delete u subtable)) sts)).
          fst kv = g} = {kv \<in> set (concat sts). fst kv = g}"
    using assms by (auto simp: AList.delete_eq image_iff)
  then show ?thesis by simp
qed

lemma targets_alternate:
  assumes "g \<noteq> u" and "u \<notin> lookup_targets (Gsub_alternate sts) g"
  shows "lookup_targets (remove_glyph_gsub u (Gsub_alternate sts)) g
           = lookup_targets (Gsub_alternate sts) g"
proof -
  have keep: "remove1 u alts = alts" if "(g, alts) \<in> set (concat sts)" for alts
  proof -
    from that assms(2) have "u \<notin> set alts" by (auto simp: image_iff)
    then show ?thesis by (rule remove1_idem)
  qed
  have "{kv \<in> set (concat (map (\<lambda>subtable. AList.delete u
            (map (\<lambda>(key, alternates). (key, remove1 u alternates)) (AList.delete u subtable))) sts)).
          fst kv = g} = {kv \<in> set (concat sts). fst kv = g}" (is "?L = ?R")
  proof (rule set_eqI)
    fix kv :: "glyph \<times> glyph list"
    obtain k alts where kv: "kv = (k, alts)" by (cases kv)
    show "kv \<in> ?L \<longleftrightarrow> kv \<in> ?R"
    proof
      assume "kv \<in> ?L"
      then obtain st alts0 where st: "st \<in> set sts" "(k, alts0) \<in> set st" "alts = remove1 u alts0" "k = g"
        unfolding kv by (auto simp: AList.delete_eq)
      from st have "(g, alts0) \<in> set (concat sts)" by auto
      from keep [OF this] st(3) have "alts = alts0" by simp
      with st show "kv \<in> ?R" unfolding kv by auto
    next
      assume "kv \<in> ?R"
      then obtain st where st: "st \<in> set sts" "(k, alts) \<in> set st" "k = g"
        unfolding kv by auto
      then have "(g, alts) \<in> set (concat sts)" by auto
      from keep [OF this] have r: "remove1 u alts = alts" .
      from st assms(1) have "(k, alts) \<in> set (AList.delete u st)" by (auto simp: AList.delete_eq)
      then have "(k, remove1 u alts) \<in> set (map (\<lambda>(key, alternates). (key, remove1 u alternates))
                   (AList.delete u st))" by force
      with r st assms(1) have "(k, alts) \<in> set (AList.delete u
            (map (\<lambda>(key, alternates). (key, remove1 u alternates)) (AList.delete u st)))"
        by (simp add: AList.delete_eq)
      with st show "kv \<in> ?L" unfolding kv by auto
    qed
  qed
  then show ?thesis by simp
qed

lemma targets_ligature:
  assumes "g \<in> V" and "u \<in> U" and "lig_ok V U (Gsub_ligature sts)"
    and "u \<notin> lookup_targets (Gsub_ligature sts) g"
  shows "lookup_targets (remove_glyph_gsub u (Gsub_ligature sts)) g
           = lookup_targets (Gsub_ligature sts) g"
proof -
  have "{rule \<in> set (concat (map (filter (\<lambda>s. u \<notin> set (lig_from s) \<and> u \<noteq> lig_to s)) sts)).
          g \<in> set (lig_from rule)} = {rule \<in> set (concat sts). g \<in> set (lig_from rule)}"
    (is "?L = ?R")
  proof (rule set_eqI)
    fix rule
    show "rule \<in> ?L \<longleftrightarrow> rule \<in> ?R"
    proof
      assume "rule \<in> ?L" then show "rule \<in> ?R" by auto
    next
      assume r: "rule \<in> ?R"
      then have mem: "rule \<in> set (concat sts)" and g: "g \<in> set (lig_from rule)" by auto
      from r assms(4) have "lig_to rule \<noteq> u" by auto
      moreover from mem g assms(1,3) have "set (lig_from rule) \<inter> U = {}" by auto
      with assms(2) have "u \<notin> set (lig_from rule)" by auto
      ultimately show "rule \<in> ?L" using r by auto
    qed
  qed
  then show ?thesis by simp
qed

lemma targets_remove_glyph_gsub:
  assumes "g \<in> V" and "u \<in> U" and "lig_ok V U l" and "g \<noteq> u" and "u \<notin> lookup_targets l g"
  shows "lookup_targets (remove_glyph_gsub u l) g = lookup_targets l g"
proof (cases l)
  case (Gsub_single sts)
  with assms(4,5) targets_single show ?thesis by blast
next
  case (Gsub_alternate sts)
  with assms(4,5) targets_alternate show ?thesis by blast
next
  case (Gsub_ligature sts)
  with assms(1,2,3,5) targets_ligature show ?thesis by blast
next
  case (Gsub_multiple sts)
  then show ?thesis by simp
next
  case (Gsub_other ty)
  then show ?thesis by simp
qed



lemma remove_glyph_fields:
  "remove_glyph obj u = Inr obj' \<Longrightarrow>
     glyph_order obj' = remove1 u (glyph_order obj)
     \<and> GSUB obj' = map_option
           (\<lambda>table. table\<lparr>lookups := map (\<lambda>(name, lookup). (name, remove_glyph_gsub u lookup))
                                        (lookups table)\<rparr>) (GSUB obj)"
  by (auto simp: remove_glyph_def Let_def split: sum.splits)

lemma reach_glyphs_cong:
  "GSUB obj1 = GSUB obj \<Longrightarrow> reach_glyphs obj1 gs acc = reach_glyphs obj gs acc"
  by (induction gs arbitrary: acc) (auto split: option.splits sum.splits)

lemma get_reachable_glyphs_cong:
  "GSUB obj1 = GSUB obj \<Longrightarrow> cmap obj1 = cmap obj \<Longrightarrow>
     get_reachable_glyphs obj1 = get_reachable_glyphs obj"
  by (simp add: get_reachable_glyphs_def reach_glyphs_cong [of obj1 obj])

lemma get_reachable_glyphs_cases:
  assumes "get_reachable_glyphs obj = Inr R"
  shows "cmap obj = [] \<or> (\<exists>table. GSUB obj = Some table \<and> (\<forall>l\<in>snd ` set (lookups table). supported l))"
proof (cases "cmap obj")
  case Nil
  then show ?thesis by simp
next
  case (Cons kv rest)
  then have ne: "map snd (cmap obj) \<noteq> []" by simp
  show ?thesis
  proof (cases "GSUB obj")
    case None
    with assms Cons show ?thesis by (simp add: get_reachable_glyphs_def)
  next
    case (Some table)
    have "\<forall>l\<in>snd ` set (lookups table). supported l"
    proof (rule ccontr)
      assume "\<not> (\<forall>l\<in>snd ` set (lookups table). supported l)"
      from reach_glyphs_unsupported [OF Some this ne] assms show False
        by (simp add: get_reachable_glyphs_def)
    qed
    with Some show ?thesis by blast
  qed
qed

lemma lig_inputs_kept_remove_glyph:
  assumes "lig_inputs_kept obj U" and "remove_glyph obj u = Inr obj'"
  shows "lig_inputs_kept obj' U"
proof (cases "GSUB obj")
  case None
  with remove_glyph_fields [OF assms(2)] show ?thesis by (simp add: lig_inputs_kept_def)
next
  case (Some table)
  from remove_glyph_cmap [OF assms(2)] have c: "cmap obj' = cmap obj" by simp
  from remove_glyph_fields [OF assms(2)] Some
  have g: "GSUB obj' = Some (table\<lparr>lookups := map (\<lambda>(name, lookup). (name, remove_glyph_gsub u lookup))
                                        (lookups table)\<rparr>)" by simp
  from assms(1) Some have ok: "\<forall>l\<in>snd ` set (lookups table). lig_ok (snd ` set (cmap obj)) U l"
    by (simp add: lig_inputs_kept_def)
  have "\<forall>l\<in>snd ` set (lookups (table\<lparr>lookups := map (\<lambda>(name, lookup). (name, remove_glyph_gsub u lookup))
                                        (lookups table)\<rparr>)). lig_ok (snd ` set (cmap obj)) U l"
  proof
    fix l
    assume "l \<in> snd ` set (lookups (table\<lparr>lookups := map (\<lambda>(name, lookup). (name, remove_glyph_gsub u lookup))
                                        (lookups table)\<rparr>))"
    then obtain l0 where l0: "l0 \<in> snd ` set (lookups table)" and l: "l = remove_glyph_gsub u l0"
      by force
    from ok l0 have "lig_ok (snd ` set (cmap obj)) U l0" by blast
    then show "lig_ok (snd ` set (cmap obj)) U l" unfolding l by (rule lig_ok_remove_glyph_gsub)
  qed
  then show ?thesis
    unfolding lig_inputs_kept_def g c by simp
qed


lemma remove_glyph_reach:
  assumes r: "get_reachable_glyphs obj = Inr R" and u: "u \<notin> R" and uU: "u \<in> U"
    and k: "lig_inputs_kept obj U" and rg: "remove_glyph obj u = Inr obj'"
  shows "get_reachable_glyphs obj' = Inr R"
proof -
  from remove_glyph_cmap [OF rg] have c: "cmap obj' = cmap obj" by simp
  from get_reachable_glyphs_cases [OF r] show ?thesis
  proof
    assume e: "cmap obj = []"
    with r c show ?thesis by (simp add: get_reachable_glyphs_def)
  next
    assume "\<exists>table. GSUB obj = Some table \<and> (\<forall>l\<in>snd ` set (lookups table). supported l)"
    then obtain table where t: "GSUB obj = Some table"
      and s: "\<forall>l\<in>snd ` set (lookups table). supported l" by blast
    let ?V = "snd ` set (cmap obj)"
    let ?table' = "table\<lparr>lookups := map (\<lambda>(name, lookup). (name, remove_glyph_gsub u lookup))
                                        (lookups table)\<rparr>"
    from remove_glyph_fields [OF rg] t have t': "GSUB obj' = Some ?table'" by simp
    have s': "\<forall>l\<in>snd ` set (lookups ?table'). supported l"
      using s by (auto simp: supported_remove_glyph_gsub)
    from r get_reachable_glyphs_eq [OF t s]
    have R: "R = {''.notdef'', ''.null''} \<union> ?V \<union> \<Union> (font_targets obj ` ?V)" by simp
    from k t have lk: "\<forall>l\<in>snd ` set (lookups table). lig_ok ?V U l"
      by (simp add: lig_inputs_kept_def)
    have same: "font_targets obj' g = font_targets obj g" if g: "g \<in> ?V" for g
    proof -
      from g R u have gu: "g \<noteq> u" by auto
      from g R u have "u \<notin> font_targets obj g" by auto
      then have nt: "\<forall>l\<in>snd ` set (lookups table). u \<notin> lookup_targets l g"
        by (simp add: font_targets_def t)
      have "lookup_targets (remove_glyph_gsub u l) g = lookup_targets l g"
        if "l \<in> snd ` set (lookups table)" for l
        using targets_remove_glyph_gsub [OF g uU _ gu] lk nt that by blast
      then have "(\<Union>l\<in>snd ` set (lookups table). lookup_targets (remove_glyph_gsub u l) g)
              = (\<Union>l\<in>snd ` set (lookups table). lookup_targets l g)" by simp
      moreover have "snd ` set (lookups ?table') = remove_glyph_gsub u ` snd ` set (lookups table)"
        by force
      ultimately show ?thesis by (simp add: font_targets_def t t')
    qed
    from get_reachable_glyphs_eq [OF t' s']
    have "get_reachable_glyphs obj' = Inr ({''.notdef'', ''.null''} \<union> ?V \<union> \<Union> (font_targets obj' ` ?V))"
      by (simp add: c)
    also have "\<Union> (font_targets obj' ` ?V) = \<Union> (font_targets obj ` ?V)"
      using same by simp
    finally show ?thesis using R by simp
  qed
qed


lemma set_foldl_remove1:
  "distinct xs \<Longrightarrow> set (foldl (\<lambda>ys g. remove1 g ys) xs todo) = set xs - set todo"
proof (induction todo arbitrary: xs)
  case Nil
  then show ?case by simp
next
  case (Cons g todo)
  from Cons.prems have "distinct (remove1 g xs)" by simp
  from Cons.IH [OF this] Cons.prems show ?case by auto
qed

lemma clean_loop_reach:
  "rev_index_inv obj \<Longrightarrow> get_reachable_glyphs obj = Inr R \<Longrightarrow> set todo \<inter> R = {} \<Longrightarrow>
     set todo \<subseteq> U \<Longrightarrow> lig_inputs_kept obj U \<Longrightarrow> clean_loop obj todo = Inr obj' \<Longrightarrow>
     get_reachable_glyphs obj' = Inr R
     \<and> glyph_order obj' = foldl (\<lambda>ys g. remove1 g ys) (glyph_order obj) todo"
proof (induction todo arbitrary: obj)
  case Nil
  then show ?case by simp
next
  case (Cons u todo)
  from get_reachable_glyphs_cmap [OF Cons.prems(2)] Cons.prems(3)
  have uV: "u \<notin> snd ` set (cmap obj)" by auto
  from Cons.prems(3) have uR: "u \<notin> R" and rest: "set todo \<inter> R = {}" by auto
  from Cons.prems(4) have uU: "u \<in> U" and restU: "set todo \<subseteq> U" by auto
  from remove_associated_unmapped [OF Cons.prems(1) uV] obtain obj1 where
    r1: "remove_associated_codepoints_of_glyph obj u = Inr obj1"
    and c1: "cmap obj1 = cmap obj" and i1: "rev_index_inv obj1"
    and o1: "glyph_order obj1 = glyph_order obj" and g1: "GSUB obj1 = GSUB obj"
    by blast
  from Cons.prems(6) r1 obtain obj2 where rg: "remove_glyph obj1 u = Inr obj2"
    and loop: "clean_loop obj2 todo = Inr obj'"
    by (auto split: sum.splits)
  from get_reachable_glyphs_cong [OF g1 c1] Cons.prems(2)
  have reach1: "get_reachable_glyphs obj1 = Inr R" by simp
  from Cons.prems(5) have k1: "lig_inputs_kept obj1 U" unfolding lig_inputs_kept_def c1 g1 .
  from remove_glyph_reach [OF reach1 uR uU k1 rg] have reach2: "get_reachable_glyphs obj2 = Inr R" .
  from lig_inputs_kept_remove_glyph [OF k1 rg] have k2: "lig_inputs_kept obj2 U" .
  from remove_glyph_cmap [OF rg] i1 have i2: "rev_index_inv obj2" by (simp add: rev_index_inv_def)
  from remove_glyph_fields [OF rg] o1 have o2: "glyph_order obj2 = remove1 u (glyph_order obj)" by simp
  from Cons.IH [OF i2 reach2 rest restU k2 loop] o2 show ?case by simp
qed

text \<open>
  C3, as the code has it. Take a font that satisfies the reverse-index invariant, whose
  glyph order has no repeated name, and in which no ligature rule with a glyph of the
  cmap among its inputs also has a removed glyph among its inputs. When
  \<^verbatim>\<open>clean_unused_glyphs\<close> succeeds on it, the reachable set of the result is the one of
  the first call, every glyph left in the glyph order is reachable, and a second call
  returns the font as it is.
\<close>

theorem clean_unused_glyphs_idempotent:
  assumes "rev_index_inv obj"
    and "distinct (glyph_order obj)"
    and "get_reachable_glyphs obj = Inr reachable"
    and "iterates todo (set (glyph_order obj) - reachable)"
    and "lig_inputs_kept obj (set (glyph_order obj) - reachable)"
    and "clean_unused_glyphs todo obj = Inr obj'"
  shows "get_reachable_glyphs obj' = Inr reachable
       \<and> set (glyph_order obj') - reachable = {}
       \<and> (\<forall>todo'. iterates todo' (set (glyph_order obj') - reachable)
             \<longrightarrow> clean_unused_glyphs todo' obj' = Inr obj')"
proof -
  from assms(4) have d: "set todo \<inter> reachable = {}"
    and s: "set todo \<subseteq> set (glyph_order obj) - reachable"
    and e: "set todo = set (glyph_order obj) - reachable"
    by (auto simp: iterates_def)
  from assms(6,3) have loop: "clean_loop obj todo = Inr obj'"
    by (simp add: clean_unused_glyphs_def)
  from clean_loop_reach [OF assms(1,3) d s assms(5) loop]
  have reach: "get_reachable_glyphs obj' = Inr reachable"
    and order: "glyph_order obj' = foldl (\<lambda>ys g. remove1 g ys) (glyph_order obj) todo"
    by blast+
  from set_foldl_remove1 [OF assms(2), of todo] order e
  have none: "set (glyph_order obj') - reachable = {}" by auto
  have "\<forall>todo'. iterates todo' (set (glyph_order obj') - reachable)
             \<longrightarrow> clean_unused_glyphs todo' obj' = Inr obj'"
  proof (intro allI impI)
    fix todo' assume "iterates todo' (set (glyph_order obj') - reachable)"
    then have "set todo' = {}" unfolding iterates_def none by simp
    then have "todo' = []" by simp
    with reach show "clean_unused_glyphs todo' obj' = Inr obj'"
      by (simp add: clean_unused_glyphs_def)
  qed
  with reach none show ?thesis by blast
qed



lemma rev_index_inv_one:
  "rev_index_inv \<lparr>cmap = [(''97'', ''a'')], cmap_rev = [(''a'', [''97''])],
      glyph_order = order, glyf = gl, GSUB = gs, GPOS = gp, BASE = ba\<rparr>"
  by (auto simp: rev_index_inv_def defaultdict_get_def split: if_splits)

lemma ligature_font_reach:
  "get_reachable_glyphs ligature_font = Inr {''.notdef'', ''.null'', ''a'', ''t''}"
  by (auto simp: get_reachable_glyphs_def ligature_font_def)

lemma ligature_font_clean:
  "clean_unused_glyphs [''u''] ligature_font = Inr ligature_font_pruned"
  by (simp add: clean_unused_glyphs_def ligature_font_reach)
     (simp add: ligature_font_def ligature_font_pruned_def
        remove_associated_codepoints_of_glyph_def defaultdict_get_def remove_glyph_def
        remove_glyph_gpos_table_def Let_def)

lemma ligature_font_todo:
  "iterates [''u''] (set (glyph_order ligature_font) - {''.notdef'', ''.null'', ''a'', ''t''})"
  by (auto simp: iterates_def ligature_font_def)

theorem clean_unused_glyphs_keeps_cmap_witness:
  "rev_index_inv ligature_font
   \<and> get_reachable_glyphs ligature_font = Inr {''.notdef'', ''.null'', ''a'', ''t''}
   \<and> iterates [''u''] (set (glyph_order ligature_font) - {''.notdef'', ''.null'', ''a'', ''t''})
   \<and> defaultdict_get (cmap_rev ligature_font) ''u'' = []
   \<and> clean_unused_glyphs [''u''] ligature_font = Inr ligature_font_pruned
   \<and> cmap ligature_font_pruned = cmap ligature_font"
proof -
  have h1: "rev_index_inv ligature_font"
    unfolding ligature_font_def by (rule rev_index_inv_one)
  from clean_unused_glyphs_keeps_cmap [OF h1 ligature_font_reach ligature_font_todo]
  have "defaultdict_get (cmap_rev ligature_font) ''u'' = []"
    and "cmap ligature_font_pruned = cmap ligature_font"
    by (simp_all add: ligature_font_clean)
  with h1 ligature_font_reach ligature_font_todo ligature_font_clean show ?thesis by simp
qed

theorem clean_unused_glyphs_twice_counterexample:
  "rev_index_inv ligature_font
   \<and> distinct (glyph_order ligature_font)
   \<and> get_reachable_glyphs ligature_font = Inr {''.notdef'', ''.null'', ''a'', ''t''}
   \<and> iterates [''u''] (set (glyph_order ligature_font) - {''.notdef'', ''.null'', ''a'', ''t''})
   \<and> clean_unused_glyphs [''u''] ligature_font = Inr ligature_font_pruned
   \<and> get_reachable_glyphs ligature_font_pruned = Inr {''.notdef'', ''.null'', ''a''}
   \<and> iterates [''t''] (set (glyph_order ligature_font_pruned) - {''.notdef'', ''.null'', ''a''})
   \<and> clean_unused_glyphs [''t''] ligature_font_pruned = Inr ligature_font_pruned_twice
   \<and> glyph_order ligature_font_pruned = [''.notdef'', ''a'', ''t'']
   \<and> glyph_order ligature_font_pruned_twice = [''.notdef'', ''a'']"
proof -
  have h1: "rev_index_inv ligature_font"
    unfolding ligature_font_def by (rule rev_index_inv_one)
  have h2: "distinct (glyph_order ligature_font)" by (simp add: ligature_font_def)
  have r2: "get_reachable_glyphs ligature_font_pruned = Inr {''.notdef'', ''.null'', ''a''}"
    by (auto simp: get_reachable_glyphs_def ligature_font_pruned_def)
  have t2: "iterates [''t''] (set (glyph_order ligature_font_pruned) - {''.notdef'', ''.null'', ''a''})"
    by (auto simp: iterates_def ligature_font_pruned_def)
  have c2: "clean_unused_glyphs [''t''] ligature_font_pruned = Inr ligature_font_pruned_twice"
    by (simp add: clean_unused_glyphs_def r2)
       (simp add: ligature_font_pruned_def ligature_font_pruned_twice_def
          remove_associated_codepoints_of_glyph_def defaultdict_get_def remove_glyph_def
          remove_glyph_gpos_table_def Let_def)
  have o1: "glyph_order ligature_font_pruned = [''.notdef'', ''a'', ''t'']"
    by (simp add: ligature_font_pruned_def)
  have o2: "glyph_order ligature_font_pruned_twice = [''.notdef'', ''a'']"
    by (simp add: ligature_font_pruned_twice_def)
  from h1 h2 ligature_font_reach ligature_font_todo ligature_font_clean r2 t2 c2 o1 o2
  show ?thesis by simp
qed

lemma chain_font_reach:
  "get_reachable_glyphs chain_font = Inr {''.notdef'', ''.null'', ''a'', ''b''}"
  by (auto simp: get_reachable_glyphs_def chain_font_def)

theorem clean_unused_glyphs_idempotent_witness:
  "rev_index_inv chain_font
   \<and> distinct (glyph_order chain_font)
   \<and> get_reachable_glyphs chain_font = Inr {''.notdef'', ''.null'', ''a'', ''b''}
   \<and> iterates [''c''] (set (glyph_order chain_font) - {''.notdef'', ''.null'', ''a'', ''b''})
   \<and> lig_inputs_kept chain_font (set (glyph_order chain_font) - {''.notdef'', ''.null'', ''a'', ''b''})
   \<and> clean_unused_glyphs [''c''] chain_font = Inr chain_font_pruned
   \<and> get_reachable_glyphs chain_font_pruned = Inr {''.notdef'', ''.null'', ''a'', ''b''}
   \<and> iterates [] (set (glyph_order chain_font_pruned) - {''.notdef'', ''.null'', ''a'', ''b''})
   \<and> clean_unused_glyphs [] chain_font_pruned = Inr chain_font_pruned"
proof -
  have h1: "rev_index_inv chain_font"
    unfolding chain_font_def by (rule rev_index_inv_one)
  have h2: "distinct (glyph_order chain_font)" by (simp add: chain_font_def)
  have h4: "iterates [''c''] (set (glyph_order chain_font) - {''.notdef'', ''.null'', ''a'', ''b''})"
    by (auto simp: iterates_def chain_font_def)
  have h5: "lig_inputs_kept chain_font (set (glyph_order chain_font) - {''.notdef'', ''.null'', ''a'', ''b''})"
    by (simp add: lig_inputs_kept_def chain_font_def)
  have h6: "clean_unused_glyphs [''c''] chain_font = Inr chain_font_pruned"
    by (simp add: clean_unused_glyphs_def chain_font_reach)
       (simp add: chain_font_def chain_font_pruned_def
          remove_associated_codepoints_of_glyph_def defaultdict_get_def remove_glyph_def
          remove_glyph_gpos_table_def Let_def)
  have e: "iterates [] (set (glyph_order chain_font_pruned) - {''.notdef'', ''.null'', ''a'', ''b''})"
    by (auto simp: iterates_def chain_font_pruned_def)
  from clean_unused_glyphs_idempotent [OF h1 h2 chain_font_reach h4 h5 h6] e
  have "get_reachable_glyphs chain_font_pruned = Inr {''.notdef'', ''.null'', ''a'', ''b''}"
    and "clean_unused_glyphs [] chain_font_pruned = Inr chain_font_pruned"
    by blast+
  with h1 h2 chain_font_reach h4 h5 h6 e show ?thesis by simp
qed

section \<open>Properties of glyph removal\<close>


lemma remove1_once: "count_list xs g \<le> 1 \<Longrightarrow> g \<notin> set (remove1 g xs)"
proof (induction xs)
  case Nil
  then show ?case by simp
next
  case (Cons x xs)
  show ?case
  proof (cases "x = g")
    case True
    with Cons.prems have "count_list xs g = 0" by simp
    then have "g \<notin> set xs" by (simp add: count_list_0_iff)
    with True show ?thesis by simp
  next
    case False
    with Cons show ?thesis by simp
  qed
qed

lemma list_pop_index: "g \<in> set xs \<Longrightarrow> list_pop (list_index xs g) xs = remove1 g xs"
proof (induction xs)
  case Nil
  then show ?case by simp
next
  case (Cons x xs)
  show ?case
  proof (cases "x = g")
    case True
    then show ?thesis by (simp add: list_pop_def list_index_def)
  next
    case False
    with Cons.prems have "g \<in> set xs" by simp
    from Cons.IH [OF this] False show ?thesis by (simp add: list_pop_def list_index_def)
  qed
qed

lemma delete_no_key: "kv \<in> set (AList.delete g al) \<Longrightarrow> fst kv \<noteq> g"
  by (auto simp: AList.delete_eq)

lemma gsub_not_mentioned:
  assumes "\<not> is_multiple l" and "gsub_once g l"
  shows "\<not> gsub_mentions g (remove_glyph_gsub g l)"
proof (cases l)
  case (Gsub_single sts)
  then show ?thesis by (auto dest: delete_no_key)
next
  case (Gsub_alternate sts)
  have "fst kv \<noteq> g \<and> g \<notin> set (snd kv)"
    if "kv \<in> set (AList.delete g (map (\<lambda>(key, alternates). (key, remove1 g alternates))
                     (AList.delete g st)))" and st: "st \<in> set sts" for kv st
  proof -
    from that(1) have k: "fst kv \<noteq> g" by (rule delete_no_key)
    from that(1) have "kv \<in> set (map (\<lambda>(key, alternates). (key, remove1 g alternates))
                     (AList.delete g st))" by (auto simp: AList.delete_eq)
    then obtain key alts where e: "(key, alts) \<in> set (AList.delete g st)" "kv = (key, remove1 g alts)"
      by auto
    from e(1) st have "(key, alts) \<in> set (concat sts)" by (auto simp: AList.delete_eq)
    moreover from assms(2) Gsub_alternate
    have "\<forall>kv\<in>set (concat sts). count_list (snd kv) g \<le> 1" by (simp del: set_concat)
    ultimately have "count_list (snd (key, alts)) g \<le> 1" by blast
    then have "count_list alts g \<le> 1" by simp
    from remove1_once [OF this] e(2) k show ?thesis by simp
  qed
  with Gsub_alternate show ?thesis by auto
next
  case (Gsub_ligature sts)
  then show ?thesis by auto
next
  case (Gsub_multiple sts)
  with assms(1) show ?thesis by simp
next
  case (Gsub_other ty)
  then show ?thesis by simp
qed

lemma gsub_multiple_kept: "is_multiple l \<Longrightarrow> remove_glyph_gsub g l = l"
  by (cases l) simp_all

lemma is_multiple_remove_glyph_gsub: "is_multiple (remove_glyph_gsub g l) = is_multiple l"
  by (cases l) simp_all



lemma map_result_Inr: "map_result f xs = Inr ys \<Longrightarrow> y \<in> set ys \<Longrightarrow> \<exists>x\<in>set xs. f x = Inr y"
proof (induction xs arbitrary: ys)
  case Nil
  then show ?case by simp
next
  case (Cons x xs)
  from Cons.prems(1) obtain z zs where z: "f x = Inr z" and zs: "map_result f xs = Inr zs"
    and ys: "ys = z # zs"
    by (auto split: sum.splits)
  from Cons.prems(2) ys have "y = z \<or> y \<in> set zs" by simp
  then show ?case
  proof
    assume "y = z" with z show ?thesis by simp
  next
    assume "y \<in> set zs"
    from Cons.IH [OF zs this] show ?thesis by auto
  qed
qed

lemma delete_no_pair: "(g, v) \<notin> set (AList.delete g al)"
  by (simp add: AList.delete_eq)

lemma context_not_mentioned:
  assumes run: "remove_glyph_context g st = Inr st'" and once: "context_once g st"
  shows "\<not> context_mentions g st'"
proof (cases "st_rules st")
  case (Some rules)
  with run have "st' = st\<lparr>st_rules := Some
                 (filter (\<lambda>rule. g \<notin> set (get_or_empty (rule_input rule)) \<and>
                                  g \<notin> set (get_or_empty (rule_lookups rule))) rules)\<rparr>"
    by (simp add: remove_glyph_context_def)
  then show ?thesis by (simp add: context_mentions_def)
next
  case None
  note rules = None
  show ?thesis
  proof (cases "st_coverage st")
    case None
    note cov = None
    show ?thesis
    proof (cases "st_classes st")
      case None
      with run rules cov have "st' = st" by (simp add: remove_glyph_context_def)
      with rules cov None show ?thesis by (simp add: context_mentions_def)
    next
      case (Some classes)
      with run rules cov have e: "st' = st\<lparr>st_classes := Some (map (remove1 g) classes)\<rparr>"
        by (simp add: remove_glyph_context_def)
      from once rules cov Some have "\<forall>c\<in>set classes. count_list c g \<le> 1"
        by (simp add: context_once_def)
      then have "\<forall>c\<in>set classes. g \<notin> set (remove1 g c)" by (blast dest: remove1_once)
      with e rules cov show ?thesis by (simp add: context_mentions_def)
    qed
  next
    case (Some coverage)
    note cov = Some
    show ?thesis
    proof (cases "st_pos st")
      case None
      note pos = None
      show ?thesis
      proof (cases "st_classes st")
        case None
        with run rules cov pos have "st' = st" by (simp add: remove_glyph_context_def)
        with rules cov pos None show ?thesis by (simp add: context_mentions_def)
      next
        case (Some classes)
        with run rules cov pos have e: "st' = st\<lparr>st_classes := Some (map (remove1 g) classes)\<rparr>"
          by (simp add: remove_glyph_context_def)
        from once rules cov pos Some have "\<forall>c\<in>set classes. count_list c g \<le> 1"
          by (simp add: context_once_def)
        then have "\<forall>c\<in>set classes. g \<notin> set (remove1 g c)" by (blast dest: remove1_once)
        with e rules cov pos show ?thesis by (simp add: context_mentions_def)
      qed
    next
      case (Some pos)
      from once rules cov Some have c1: "count_list coverage g \<le> 1"
        by (simp add: context_once_def)
      show ?thesis
      proof (cases "g \<in> set coverage")
        case False
        with run rules cov Some have "st' = st" by (simp add: remove_glyph_context_def)
        with rules cov Some False show ?thesis by (simp add: context_mentions_def)
      next
        case True
        with run rules cov Some
        have e: "st' = st\<lparr>st_coverage := Some (list_pop (list_index coverage g) coverage),
                          st_pos := Some (list_pop (list_index coverage g) pos)\<rparr>"
          by (simp add: remove_glyph_context_def Let_def split: if_splits)
        from list_pop_index [OF True] remove1_once [OF c1]
        have "g \<notin> set (list_pop (list_index coverage g) coverage)" by simp
        with e rules show ?thesis by (simp add: context_mentions_def)
      qed
    qed
  qed
qed

lemma chaining_not_mentioned: "\<not> chaining_mentions g (remove_glyph_chaining g st)"
  by (cases "st_rules st") (simp_all add: chaining_mentions_def remove_glyph_chaining_def)

lemma gpos_not_mentioned:
  assumes run: "remove_glyph_gpos g l = Inr l'" and once: "gpos_once g l"
  shows "\<not> gpos_mentions g l'"
proof (cases l)
  case (Gpos_single sts)
  with run show ?thesis by (auto simp: delete_no_pair)
next
  case (Gpos_pair sts)
  with run show ?thesis by (auto simp: delete_no_pair)
next
  case (Gpos_mark_to_base sts)
  with run show ?thesis by (auto simp: delete_no_pair)
next
  case (Gpos_mark_to_mark sts)
  with run show ?thesis by (auto simp: delete_no_pair)
next
  case (Gpos_mark_to_ligature sts)
  with run show ?thesis by (auto simp: delete_no_pair)
next
  case (Gpos_cursive sts)
  with run show ?thesis by (auto simp: delete_no_pair)
next
  case (Gpos_context sts)
  with run obtain sts' where m: "map_result (remove_glyph_context g) sts = Inr sts'"
    and l': "l' = Gpos_context sts'"
    by (auto split: sum.splits)
  have "\<not> context_mentions g st'" if "st' \<in> set sts'" for st'
  proof -
    from map_result_Inr [OF m that] obtain st where st: "st \<in> set sts"
      and r: "remove_glyph_context g st = Inr st'" by blast
    from once Gpos_context st have "context_once g st" by simp
    with r show ?thesis by (rule context_not_mentioned)
  qed
  with l' show ?thesis by auto
next
  case (Gpos_chaining sts)
  with run show ?thesis by (auto simp: chaining_not_mentioned)
next
  case (Gpos_other ty)
  with run show ?thesis by auto
qed



lemma remove_glyph_gsub_lookups:
  assumes "remove_glyph obj g = Inr obj'"
  shows "font_gsub_lookups obj' = map (remove_glyph_gsub g) (font_gsub_lookups obj)"
proof (cases "GSUB obj")
  case None
  with remove_glyph_fields [OF assms] show ?thesis by (simp add: font_gsub_lookups_def)
next
  case (Some table)
  with remove_glyph_fields [OF assms] show ?thesis
    by (simp add: font_gsub_lookups_def split_def comp_def)
qed

lemma remove_glyph_gpos_lookups:
  assumes "remove_glyph obj g = Inr obj'" and "l' \<in> set (font_gpos_lookups obj')"
  shows "\<exists>l\<in>set (font_gpos_lookups obj). remove_glyph_gpos g l = Inr l'"
proof -
  from assms(1) have t: "remove_glyph_gpos_table g (GPOS obj) = Inr (GPOS obj')"
    by (auto simp: remove_glyph_def Let_def split: sum.splits)
  show ?thesis
  proof (cases "GPOS obj")
    case None
    with t have "GPOS obj' = None" by (simp add: remove_glyph_gpos_table_def)
    with assms(2) show ?thesis by (simp add: font_gpos_lookups_def)
  next
    case (Some entries)
    with t obtain entries' where
      m: "map_result (\<lambda>(name, lookup).
                   case remove_glyph_gpos g lookup of
                     Inl e \<Rightarrow> Inl e
                   | Inr lookup' \<Rightarrow> Inr (name, lookup')) entries = Inr entries'"
      and e': "GPOS obj' = Some entries'"
      by (auto simp: remove_glyph_gpos_table_def split: sum.splits)
    from assms(2) e' obtain name where "(name, l') \<in> set entries'"
      by (auto simp: font_gpos_lookups_def)
    from map_result_Inr [OF m this] obtain name0 l where
      mem: "(name0, l) \<in> set entries"
      and r: "(case remove_glyph_gpos g l of Inl e \<Rightarrow> Inl e | Inr lookup' \<Rightarrow> Inr (name0, lookup'))
                = Inr (name, l')"
      by auto
    from r have "remove_glyph_gpos g l = Inr l'" by (auto split: sum.splits)
    moreover from mem Some have "l \<in> set (font_gpos_lookups obj)"
      by (force simp: font_gpos_lookups_def)
    ultimately show ?thesis by blast
  qed
qed

lemma filter_multiple_kept:
  "filter is_multiple (map (remove_glyph_gsub g) ls) = filter is_multiple ls"
  by (induction ls) (simp_all add: is_multiple_remove_glyph_gsub gsub_multiple_kept)

text \<open>
  \<^verbatim>\<open>remove_glyph\<close> returns on every font whose coverage-shaped subtables are aligned.
\<close>


lemma map_result_total:
  "\<forall>x\<in>set xs. \<exists>y. f x = Inr y \<Longrightarrow> \<exists>ys. map_result f xs = Inr ys"
proof (induction xs)
  case Nil
  then show ?case by simp
next
  case (Cons x xs)
  from Cons.prems obtain y where y: "f x = Inr y" by auto
  from Cons have "\<exists>ys. map_result f xs = Inr ys" by simp
  then obtain ys where "map_result f xs = Inr ys" by blast
  with y show ?case by simp
qed

lemma list_index_less: "g \<in> set xs \<Longrightarrow> list_index xs g < length xs"
  by (induction xs) (auto simp: list_index_def)

lemma remove_glyph_context_returns:
  assumes "context_aligned st"
  shows "\<exists>st'. remove_glyph_context g st = Inr st'"
proof (cases "remove_glyph_context g st")
  case (Inr st')
  then show ?thesis by blast
next
  case (Inl e)
  then obtain coverage pos where c: "st_rules st = None" "st_coverage st = Some coverage"
    "st_pos st = Some pos" "g \<in> set coverage" "\<not> list_index coverage g < length pos"
    by (auto simp: remove_glyph_context_def Let_def split: option.splits if_splits)
  from assms c(1,2,3) have "length coverage \<le> length pos" by (simp add: context_aligned_def)
  with list_index_less [OF c(4)] c(5) show ?thesis by simp
qed

lemma remove_glyph_gpos_returns:
  assumes "gpos_aligned l"
  shows "\<exists>l'. remove_glyph_gpos g l = Inr l'"
proof (cases l)
  case (Gpos_context sts)
  with assms have "\<forall>st\<in>set sts. \<exists>st'. remove_glyph_context g st = Inr st'"
    by (auto intro: remove_glyph_context_returns)
  from map_result_total [OF this] Gpos_context show ?thesis by auto
qed simp_all

lemma remove_glyph_returns:
  assumes "\<forall>l\<in>set (font_gpos_lookups obj). gpos_aligned l"
  shows "\<exists>obj'. remove_glyph obj g = Inr obj'"
proof (cases "GPOS obj")
  case None
  then show ?thesis by (simp add: remove_glyph_def remove_glyph_gpos_table_def Let_def)
next
  case (Some entries)
  have "\<forall>x\<in>set entries. \<exists>y. (case x of (name, lookup) \<Rightarrow>
                   case remove_glyph_gpos g lookup of
                     Inl e \<Rightarrow> Inl e
                   | Inr lookup' \<Rightarrow> Inr (name, lookup')) = Inr y"
  proof
    fix x assume x: "x \<in> set entries"
    obtain name l where nl: "x = (name, l)" by (cases x)
    from x nl Some assms have "gpos_aligned l" by (force simp: font_gpos_lookups_def)
    from remove_glyph_gpos_returns [OF this, of g] obtain l' where "remove_glyph_gpos g l = Inr l'"
      by blast
    with nl show "\<exists>y. (case x of (name, lookup) \<Rightarrow>
                   case remove_glyph_gpos g lookup of
                     Inl e \<Rightarrow> Inl e
                   | Inr lookup' \<Rightarrow> Inr (name, lookup')) = Inr y" by simp
  qed
  from map_result_total [OF this] obtain entries' where
    "map_result (\<lambda>(name, lookup).
                   case remove_glyph_gpos g lookup of
                     Inl e \<Rightarrow> Inl e
                   | Inr lookup' \<Rightarrow> Inr (name, lookup')) entries = Inr entries'" by blast
  with Some show ?thesis by (simp add: remove_glyph_def remove_glyph_gpos_table_def Let_def)
qed

text \<open>
  C2, as the code has it. After a call of \<^verbatim>\<open>remove_glyph\<close> that returns, the glyph is in
  none of the listed positions of any GSUB lookup of type \<^verbatim>\<open>gsub_single\<close>,
  \<^verbatim>\<open>gsub_alternate\<close> or \<^verbatim>\<open>gsub_ligature\<close> and of any GPOS lookup, provided the alternate,
  coverage and class lists held it at most once. The \<^verbatim>\<open>gsub_multiple\<close> lookups are the
  ones the font had before the call, keys included.
\<close>

theorem remove_glyph_strips_lookups:
  assumes "remove_glyph obj g = Inr obj'"
    and "\<forall>l\<in>set (font_gsub_lookups obj). gsub_once g l"
    and "\<forall>l\<in>set (font_gpos_lookups obj). gpos_once g l"
  shows "(\<forall>l\<in>set (font_gsub_lookups obj'). \<not> is_multiple l \<longrightarrow> \<not> gsub_mentions g l)
       \<and> (\<forall>l\<in>set (font_gpos_lookups obj'). \<not> gpos_mentions g l)
       \<and> filter is_multiple (font_gsub_lookups obj') = filter is_multiple (font_gsub_lookups obj)"
proof (intro conjI ballI impI)
  fix l' assume mem: "l' \<in> set (font_gsub_lookups obj')" and nm: "\<not> is_multiple l'"
  from mem remove_glyph_gsub_lookups [OF assms(1)] obtain l where
    l: "l \<in> set (font_gsub_lookups obj)" and l': "l' = remove_glyph_gsub g l" by auto
  from nm l' have "\<not> is_multiple l" by (simp add: is_multiple_remove_glyph_gsub)
  moreover from assms(2) l have "gsub_once g l" by blast
  ultimately show "\<not> gsub_mentions g l'" unfolding l' by (rule gsub_not_mentioned)
next
  fix l' assume "l' \<in> set (font_gpos_lookups obj')"
  from remove_glyph_gpos_lookups [OF assms(1) this] obtain l where
    l: "l \<in> set (font_gpos_lookups obj)" and r: "remove_glyph_gpos g l = Inr l'" by blast
  from assms(3) l have "gpos_once g l" by blast
  with r show "\<not> gpos_mentions g l'" by (rule gpos_not_mentioned)
next
  show "filter is_multiple (font_gsub_lookups obj') = filter is_multiple (font_gsub_lookups obj)"
    unfolding remove_glyph_gsub_lookups [OF assms(1)] by (rule filter_multiple_kept)
qed

lemma lookups_font_after:
  "remove_glyph lookups_font ''x'' =
     Inr (lookups_font
       \<lparr>glyph_order := [''.notdef'', ''a'', ''b'', ''pseu0''],
        GSUB := Some
          \<lparr>lookups =
             [(''sing'', Gsub_single [[(''b'', ''a'')]]),
              (''alt'', Gsub_alternate [[(''a'', [''b''])]]),
              (''liga'', Gsub_ligature [[\<lparr>lig_from = [''a'', ''b''], lig_to = ''a''\<rparr>]]),
              (''pseu2word'', Gsub_multiple [[(''pseu0'', [''a'', ''x''])]])],
           features = [], languages = [], lookupOrder = []\<rparr>,
        GPOS := Some
          [(''kern'', Gpos_pair [([(''a'', [])], [])]),
           (''ctx'', Gpos_context
              [\<lparr>st_rules = None, st_coverage = Some [''a''],
                st_pos = Some [[(''dx'', 1)]], st_classes = None\<rparr>])]\<rparr>)"
  by (simp add: lookups_font_def remove_glyph_def remove_glyph_gpos_table_def
      remove_glyph_context_def list_index_def list_pop_def Let_def)

theorem remove_glyph_strips_lookups_witness:
  "list_all (gsub_once ''x'') (font_gsub_lookups lookups_font)
   \<and> list_all (gpos_once ''x'') (font_gpos_lookups lookups_font)
   \<and> lookups_after lookups_font ''x'' =
       Inr ([Gsub_single [[(''b'', ''a'')]],
             Gsub_alternate [[(''a'', [''b''])]],
             Gsub_ligature [[\<lparr>lig_from = [''a'', ''b''], lig_to = ''a''\<rparr>]],
             Gsub_multiple [[(''pseu0'', [''a'', ''x''])]]],
            [Gpos_pair [([(''a'', [])], [])],
             Gpos_context
              [\<lparr>st_rules = None, st_coverage = Some [''a''],
                st_pos = Some [[(''dx'', 1)]], st_classes = None\<rparr>]])
   \<and> \<not> gsub_mentions ''x'' (Gsub_single [[(''b'', ''a'')]])
   \<and> \<not> gsub_mentions ''x'' (Gsub_alternate [[(''a'', [''b''])]])
   \<and> \<not> gsub_mentions ''x'' (Gsub_ligature [[\<lparr>lig_from = [''a'', ''b''], lig_to = ''a''\<rparr>]])
   \<and> \<not> gpos_mentions ''x'' (Gpos_pair [([(''a'', [])], [])])
   \<and> filter is_multiple (font_gsub_lookups lookups_font) = [Gsub_multiple [[(''pseu0'', [''a'', ''x''])]]]"
proof -
  have h2: "\<forall>l\<in>set (font_gsub_lookups lookups_font). gsub_once ''x'' l"
    by (simp add: font_gsub_lookups_def lookups_font_def)
  have h3: "\<forall>l\<in>set (font_gpos_lookups lookups_font). gpos_once ''x'' l"
    by (simp add: font_gpos_lookups_def lookups_font_def context_once_def)
  have a: "lookups_after lookups_font ''x'' =
       Inr ([Gsub_single [[(''b'', ''a'')]],
             Gsub_alternate [[(''a'', [''b''])]],
             Gsub_ligature [[\<lparr>lig_from = [''a'', ''b''], lig_to = ''a''\<rparr>]],
             Gsub_multiple [[(''pseu0'', [''a'', ''x''])]]],
            [Gpos_pair [([(''a'', [])], [])],
             Gpos_context
              [\<lparr>st_rules = None, st_coverage = Some [''a''],
                st_pos = Some [[(''dx'', 1)]], st_classes = None\<rparr>]])"
    by (simp add: lookups_after_def lookups_font_after font_gsub_lookups_def font_gpos_lookups_def)
  have m: "filter is_multiple (font_gsub_lookups lookups_font) = [Gsub_multiple [[(''pseu0'', [''a'', ''x''])]]]"
    by (simp add: font_gsub_lookups_def lookups_font_def)
  from remove_glyph_strips_lookups [OF lookups_font_after h2 h3] h2 h3 a m
  show ?thesis by (simp add: list_all_iff)
qed

theorem remove_glyph_keeps_counterexample:
  "lookups_after duplicates_font ''pseu0'' =
     Inr ([Gsub_alternate [[(''a'', [''x'', ''x''])]], Gsub_multiple [[(''pseu0'', [''a'', ''b''])]]],
          [Gpos_context
            [\<lparr>st_rules = None, st_coverage = Some [''x'', ''x''],
              st_pos = Some [[(''dx'', 1)], [(''dx'', 2)]], st_classes = None\<rparr>]])
   \<and> gsub_mentions ''pseu0'' (Gsub_multiple [[(''pseu0'', [''a'', ''b''])]])
   \<and> lookups_after duplicates_font ''x'' =
     Inr ([Gsub_alternate [[(''a'', [''x''])]], Gsub_multiple [[(''pseu0'', [''a'', ''b''])]]],
          [Gpos_context
            [\<lparr>st_rules = None, st_coverage = Some [''x''],
              st_pos = Some [[(''dx'', 2)]], st_classes = None\<rparr>]])
   \<and> gsub_mentions ''x'' (Gsub_alternate [[(''a'', [''x''])]])
   \<and> gpos_mentions ''x'' (Gpos_context
            [\<lparr>st_rules = None, st_coverage = Some [''x''],
              st_pos = Some [[(''dx'', 2)]], st_classes = None\<rparr>])"
  by (simp add: lookups_after_def duplicates_font_def remove_glyph_def remove_glyph_gpos_table_def
      remove_glyph_context_def list_index_def list_pop_def Let_def
      font_gsub_lookups_def font_gpos_lookups_def context_mentions_def)

end
